theory Spec2Isabelle
  imports Complex_Main "HOL-Library.AList" "HOL-Library.Product_Lexorder"
begin

section \<open>Blurred clustering: data model\<close>

text \<open>
  The development embeds \<^verbatim>\<open>larreco/RecoAlg/BlurredClusteringAlg.cxx\<close>.
  C++ \<^verbatim>\<open>int\<close> values are HOL integers (signed overflow, which is undefined
  in C++, is not modelled except where a loop's termination rests on it), and
  \<^verbatim>\<open>float\<close>/\<^verbatim>\<open>double\<close> values are HOL reals (rounding is not modelled;
  an undefined quotient is an error value). Every exception and every read outside a
  container is a value of type \<open>error\<close>.
\<close>

datatype error =
    Configuration        \<comment> \<open>\<^verbatim>\<open>art::Exception(art::errors::Configuration)\<close>\<close>
  | OutOfRange           \<comment> \<open>\<^verbatim>\<open>std::out_of_range\<close> thrown by \<^verbatim>\<open>at\<close>\<close>
  | LengthError          \<comment> \<open>\<^verbatim>\<open>std::length_error\<close>: a vector of negative (wrapped) size\<close>
  | UndefinedNumeric     \<comment> \<open>a NaN or infinite double converted to \<^verbatim>\<open>int\<close>\<close>
  | UndefinedBehaviour   \<comment> \<open>an unchecked read or write outside a vector, signed overflow\<close>

text \<open>
  A hit handle (\<^verbatim>\<open>art::Ptr<recob::Hit>\<close>). \<open>GlobalWire\<close> is the value of
  \<^verbatim>\<open>GlobalWire(hit->WireID())\<close>, which consults the geometry service; \<open>key\<close> is the
  handle's identity.
\<close>

record Hit =
  key :: nat
  GlobalWire :: int
  PeakTime :: real
  Integral :: real
  RMS :: real

text \<open>The two detector constants read by \<^verbatim>\<open>ConvertRecobHitsToVector\<close> (both unsigned).\<close>

record Detector =
  ReadOutWindowSize :: nat
  MaxWires :: nat

text \<open>
  The members written by \<^verbatim>\<open>ConvertRecobHitsToVector\<close>. The nested
  \<^verbatim>\<open>std::map<int, std::map<int, art::Ptr<recob::Hit>>>\<close> is kept as one association
  list keyed by (wire, tick): an inner map only ever comes into being together with an
  entry, so \<^verbatim>\<open>find(wire)\<close> followed by \<^verbatim>\<open>find(tick)\<close> succeeds exactly on the keys
  of the list.
\<close>

record AlgState =
  fLowerHistTick :: int
  fUpperHistTick :: int
  fLowerHistWire :: int
  fUpperHistWire :: int
  fHitMap :: "((int \<times> int) \<times> Hit) list"

type_synonym image = "real list list"

subsection \<open>Conversions and container access\<close>

text \<open>Conversion of a floating-point value to \<^verbatim>\<open>int\<close>: truncation towards zero.\<close>

definition to_int :: "real \<Rightarrow> int" where
  "to_int r = (if 0 \<le> r then \<lfloor>r\<rfloor> else \<lceil>r\<rceil>)"

text \<open>\<^verbatim>\<open>std::vector::at\<close> with an \<^verbatim>\<open>int\<close> argument: a negative index wraps to a huge
  unsigned one and is out of range like any other.\<close>

definition vec_at :: "'a list \<Rightarrow> int \<Rightarrow> error + 'a" where
  "vec_at xs i = (if 0 \<le> i \<and> i < int (length xs) then Inr (xs ! nat i) else Inl OutOfRange)"

definition at2 :: "'a list list \<Rightarrow> int \<Rightarrow> int \<Rightarrow> error + 'a" where
  "at2 img i j = (case vec_at img i of Inl e \<Rightarrow> Inl e | Inr row \<Rightarrow> vec_at row j)"

text \<open>Assignment through \<^verbatim>\<open>img.at(i).at(j) = v\<close>.\<close>

definition put2 :: "'a list list \<Rightarrow> int \<Rightarrow> int \<Rightarrow> 'a \<Rightarrow> error + 'a list list" where
  "put2 img i j v =
     (case at2 img i j of
        Inl e \<Rightarrow> Inl e
      | Inr _ \<Rightarrow> Inr (img[nat i := (img ! nat i)[nat j := v]]))"

text \<open>\<^verbatim>\<open>std::vector<std::vector<double>>(n, std::vector<double>(m, 0))\<close> with \<^verbatim>\<open>int\<close>
  sizes: a negative size converts to an unsigned value beyond \<^verbatim>\<open>max_size()\<close>.\<close>

definition new_image :: "int \<Rightarrow> int \<Rightarrow> error + image" where
  "new_image n m =
     (if m < 0 then Inl LengthError
      else if n < 0 then Inl LengthError
      else Inr (replicate (nat n) (replicate (nat m) 0)))"

section \<open>ImageBuilder: \<^verbatim>\<open>ConvertRecobHitsToVector\<close>\<close>

text \<open>The first loop: the running (lowerTick, upperTick, lowerWire, upperWire).\<close>

fun scan_bounds :: "Hit list \<Rightarrow> int \<times> int \<times> int \<times> int \<Rightarrow> int \<times> int \<times> int \<times> int" where
  "scan_bounds [] b = b"
| "scan_bounds (h # hs) (lowerTick, upperTick, lowerWire, upperWire) =
     (let histWire = GlobalWire h;
          lowerTick' = (if PeakTime h < of_int lowerTick then to_int (PeakTime h) else lowerTick);
          upperTick' = (if PeakTime h > of_int upperTick then to_int (PeakTime h) else upperTick);
          lowerWire' = (if histWire < lowerWire then histWire else lowerWire);
          upperWire' = (if histWire > upperWire then histWire else upperWire)
      in scan_bounds hs (lowerTick', upperTick', lowerWire', upperWire'))"

text \<open>The second loop: a hit overwrites its cell when its charge exceeds the stored one.\<close>

fun fill_hits ::
  "int \<Rightarrow> int \<Rightarrow> Hit list \<Rightarrow> image \<times> image \<times> ((int \<times> int) \<times> Hit) list \<Rightarrow>
     error + (image \<times> image \<times> ((int \<times> int) \<times> Hit) list)" where
  "fill_hits lw lt [] s = Inr s"
| "fill_hits lw lt (h # hs) (image_local, widths_local, hitMap) =
     (let wire = GlobalWire h;
          tick = to_int (PeakTime h);
          charge = Integral h;
          width = RMS h
      in case at2 image_local (wire - lw) (tick - lt) of
           Inl e \<Rightarrow> Inl e
         | Inr stored \<Rightarrow>
             if charge > stored then
               (case put2 image_local (wire - lw) (tick - lt) charge of
                  Inl e \<Rightarrow> Inl e
                | Inr image' \<Rightarrow>
                    (case put2 widths_local (wire - lw) (tick - lt) width of
                       Inl e \<Rightarrow> Inl e
                     | Inr widths' \<Rightarrow>
                         fill_hits lw lt hs
                           (image', widths', AList.update (wire, tick) h hitMap)))
             else fill_hits lw lt hs (image_local, widths_local, hitMap))"

definition ConvertRecobHitsToVector ::
  "Detector \<Rightarrow> Hit list \<Rightarrow> error + (AlgState \<times> image \<times> image)" where
  "ConvertRecobHitsToVector det hits =
     (case scan_bounds hits (int (ReadOutWindowSize det), 0, int (MaxWires det), 0) of
        (lowerTick, upperTick, lowerWire, upperWire) \<Rightarrow>
          (let lt = lowerTick - 20; ut = upperTick + 20;
               lw = lowerWire - 20; uw = upperWire + 20
           in case new_image (uw - lw) (ut - lt) of
                Inl e \<Rightarrow> Inl e
              | Inr image_local \<Rightarrow>
                  (case new_image (uw - lw) (ut - lt) of
                     Inl e \<Rightarrow> Inl e
                   | Inr widths_local \<Rightarrow>
                       (case fill_hits lw lt hits (image_local, widths_local, []) of
                          Inl e \<Rightarrow> Inl e
                        | Inr (img, widths, hitMap) \<Rightarrow>
                            Inr (\<lparr>fLowerHistTick = lt, fUpperHistTick = ut,
                                  fLowerHistWire = lw, fUpperHistWire = uw,
                                  fHitMap = hitMap\<rparr>, img, widths)))))"

text \<open>The cell a hit is written to by the second loop: (wire, tick).\<close>

definition hit_cell :: "Hit \<Rightarrow> int \<times> int" where
  "hit_cell h = (GlobalWire h, to_int (PeakTime h))"

text \<open>The second loop seen from one cell: its charge, its width and its entry of the hit map.\<close>

fun cell_after :: "int \<times> int \<Rightarrow> Hit list \<Rightarrow> real \<times> real \<times> Hit option \<Rightarrow> real \<times> real \<times> Hit option" where
  "cell_after c [] s = s"
| "cell_after c (h # hs) (charge, width, occupant) =
     (if hit_cell h = c \<and> Integral h > charge
      then cell_after c hs (Integral h, RMS h, Some h)
      else cell_after c hs (charge, width, occupant))"

section \<open>Bins\<close>

text \<open>
  \<^verbatim>\<open>bin % image.size()\<close> and \<^verbatim>\<open>bin / image.size()\<close> are computed in the unsigned
  64-bit type of \<^verbatim>\<open>size()\<close> and the result is narrowed back to \<^verbatim>\<open>int\<close>; division by
  a zero size is undefined.
\<close>

definition to_size_t :: "int \<Rightarrow> int" where
  "to_size_t i = i mod 2 ^ 64"

definition narrow_int :: "int \<Rightarrow> int" where
  "narrow_int u = (let r = u mod 2 ^ 32 in if r < 2 ^ 31 then r else r - 2 ^ 32)"

definition ConvertWireTickToBin :: "image \<Rightarrow> int \<Rightarrow> int \<Rightarrow> int" where
  "ConvertWireTickToBin img xbin ybin =
     narrow_int (to_size_t (to_size_t ybin * int (length img) + to_size_t xbin))"

definition ConvertBinToRecobHit :: "AlgState \<Rightarrow> image \<Rightarrow> int \<Rightarrow> error + Hit option" where
  "ConvertBinToRecobHit st img bin =
     (if length img = 0 then Inl UndefinedBehaviour
      else
        let xbin = narrow_int (to_size_t bin mod int (length img));
            ybin = narrow_int (to_size_t bin div int (length img));
            wire = xbin + fLowerHistWire st - 1;
            tick = ybin + fLowerHistTick st - 1
        in Inr (map_of (fHitMap st) (wire, tick)))"

definition ConvertBinToCharge :: "image \<Rightarrow> int \<Rightarrow> error + real" where
  "ConvertBinToCharge img bin =
     (if length img = 0 then Inl UndefinedBehaviour
      else
        let x = narrow_int (to_size_t bin mod int (length img));
            y = narrow_int (to_size_t bin div int (length img))
        in at2 img x y)"

text \<open>
  The conversion of an \<^verbatim>\<open>int\<close> to \<^verbatim>\<open>unsigned int\<close>. It takes place wherever a
  configured count meets an unsigned value: in the comparison itself when the member is
  declared \<^verbatim>\<open>int\<close>, in the assignment of \<^verbatim>\<open>p.get<int>\<close> when it is declared
  \<^verbatim>\<open>unsigned int\<close>.
\<close>

definition as_unsigned :: "int \<Rightarrow> int" where
  "as_unsigned i = i mod 2 ^ 32"

text \<open>
  \<^verbatim>\<open>v.size() < fMinSize\<close>: an unsigned comparison, so that a negative \<open>fMinSize\<close> is
  above every size. (Against a member declared \<^verbatim>\<open>int\<close> the conversion is to the 64-bit
  type of \<^verbatim>\<open>size()\<close>; the two readings agree on every size below \<open>2\<^sup>3\<^sup>1\<close>, and a vector
  of distinct \<^verbatim>\<open>int\<close> bins or of hits is not longer.)
\<close>

definition size_below :: "nat \<Rightarrow> int \<Rightarrow> bool" where
  "size_below n m \<longleftrightarrow> int n < as_unsigned m"

text \<open>A generic loop whose body may fail: the first failure ends it.\<close>

fun foldE :: "('a \<Rightarrow> 's \<Rightarrow> error + 's) \<Rightarrow> 'a list \<Rightarrow> 's \<Rightarrow> error + 's" where
  "foldE f [] s = Inr s"
| "foldE f (x # xs) s = (case f x s of Inl e \<Rightarrow> Inl e | Inr s' \<Rightarrow> foldE f xs s')"

section \<open>ClusterMaterializer\<close>

definition ConvertBinsToRecobHits :: "AlgState \<Rightarrow> image \<Rightarrow> int list \<Rightarrow> error + Hit list" where
  "ConvertBinsToRecobHits st img bins =
     foldE (\<lambda>bin hits.
              case ConvertBinToRecobHit st img bin of
                Inl e \<Rightarrow> Inl e
              | Inr None \<Rightarrow> Inr hits
              | Inr (Some hit) \<Rightarrow> Inr (hits @ [hit]))
           bins []"

section \<open>Configuration\<close>

text \<open>
  The parameters as \<^verbatim>\<open>reconfigure\<close> reads them: the three counts
  \<open>fNeighboursThreshold\<close>, \<open>fMinNeighbours\<close> and \<open>fMinSize\<close> are read with
  \<^verbatim>\<open>get<int>\<close>. \<open>fNeighboursThreshold\<close> and \<open>fMinSize\<close> are only compared with
  unsigned values (\<open>as_unsigned\<close>, \<open>size_below\<close>); \<open>fMinNeighbours\<close> is compared with
  \<^verbatim>\<open>(int) NumNeighbours(...)\<close>, as an \<^verbatim>\<open>int\<close>.
\<close>

record Config =
  fBlurWire :: int
  fBlurTick :: int
  fSigmaWire :: real
  fSigmaTick :: real
  fTickWidthRescale :: real
  fMaxTickWidthScale :: int
  fKernels :: "int list"
  fClusterWireDistance :: int
  fClusterTickDistance :: int
  fNeighboursThreshold :: int
  fMinNeighbours :: int
  fMinSize :: int
  fMinSeed :: real
  fTimeThreshold :: real
  fChargeThreshold :: real

definition reconfigure :: "Config \<Rightarrow> error + Config" where
  "reconfigure p = (if 1 \<in> set (fKernels p) then Inr p else Inl Configuration)"

definition ConvertBinsToClusters ::
  "Config \<Rightarrow> AlgState \<Rightarrow> image \<Rightarrow> int list list \<Rightarrow> Hit list list \<Rightarrow> error + Hit list list" where
  "ConvertBinsToClusters cfg st img allClusterBins clusters =
     foldE (\<lambda>bins clusters.
              case ConvertBinsToRecobHits st img bins of
                Inl e \<Rightarrow> Inl e
              | Inr clusHits \<Rightarrow>
                  if size_below (length clusHits) (fMinSize cfg) then Inr clusters
                  else Inr (clusters @ [clusHits]))
           allClusterBins clusters"

section \<open>BlurParameterEstimator: \<^verbatim>\<open>FindBlurringParameters\<close>\<close>

text \<open>\<^verbatim>\<open>std::round\<close>: to the nearest integer, halves away from zero.\<close>

definition c_round :: "real \<Rightarrow> real" where
  "c_round r = (if 0 \<le> r then of_int \<lfloor>r + 1 / 2\<rfloor> else - of_int \<lfloor>- r + 1 / 2\<rfloor>)"

text \<open>\<^verbatim>\<open>TVector2(1, gradient).Unit()\<close>; the squared modulus \<open>1 + gradient\<^sup>2\<close> is
  never zero.\<close>

definition Unit :: "real \<times> real \<Rightarrow> real \<times> real" where
  "Unit v = (fst v / sqrt (fst v * fst v + snd v * snd v),
             snd v / sqrt (fst v * fst v + snd v * snd v))"

text \<open>\<^verbatim>\<open>std::max(std::abs(std::round(v)), 1.)\<close> assigned to an \<^verbatim>\<open>int\<close>.\<close>

definition scaled_param :: "real \<Rightarrow> int" where
  "scaled_param v = to_int (max \<bar>c_round v\<bar> 1)"

text \<open>The divisor of the least-squares slope, over the (wire, tick) keys of the hit map.\<close>

definition slope_divisor :: "(int \<times> int) list \<Rightarrow> real" where
  "slope_divisor pts =
     (let nhits = real (length pts);
          sumx = (\<Sum>(x, y)\<leftarrow>pts. of_int x);
          sumx2 = (\<Sum>(x, y)\<leftarrow>pts. of_int (x * x))
      in nhits * sumx2 - sumx * sumx)"

definition slope_dividend :: "(int \<times> int) list \<Rightarrow> real" where
  "slope_dividend pts =
     (let nhits = real (length pts);
          sumx = (\<Sum>(x, y)\<leftarrow>pts. of_int x);
          sumy = (\<Sum>(x, y)\<leftarrow>pts. of_int y);
          sumxy = (\<Sum>(x, y)\<leftarrow>pts. of_int (x * y))
      in nhits * sumxy - sumx * sumy)"

text \<open>
  The result is (blurwire, blurtick, sigmawire, sigmatick). The source divides without
  a test: with a zero divisor the quotient is a NaN (or an infinity), \<^verbatim>\<open>Unit\<close> and
  \<^verbatim>\<open>std::max\<close> pass it on, and its conversion to \<^verbatim>\<open>int\<close> is undefined.
\<close>

definition FindBlurringParameters :: "Config \<Rightarrow> AlgState \<Rightarrow> error + (int \<times> int \<times> int \<times> int)" where
  "FindBlurringParameters cfg st =
     (let pts = map fst (fHitMap st) in
      if slope_divisor pts = 0 then Inl UndefinedNumeric
      else
        let gradient = slope_dividend pts / slope_divisor pts;
            unit = Unit (1, gradient)
        in Inr (scaled_param (of_int (fBlurWire cfg) * fst unit),
                scaled_param (of_int (fBlurTick cfg) * snd unit),
                scaled_param (fSigmaWire cfg * fst unit),
                scaled_param (fSigmaTick cfg * snd unit)))"

section \<open>KernelFactory: the kernels built by \<^verbatim>\<open>GaussianBlur\<close>\<close>

text \<open>The value stored at offset (i, j), with the source's order of operations. With a zero
  sigma the doubles of the source are infinite or NaN, which the reals do not have: the
  value is meant for non-zero sigmas.\<close>

definition kernel_value :: "int \<Rightarrow> int \<Rightarrow> int \<Rightarrow> int \<Rightarrow> real" where
  "kernel_value sigmawire sigmatick_scaled i j =
     (let sig2i = 2 * of_int sigmawire * of_int sigmawire;
          sig2j = 2 * of_int sigmatick_scaled * of_int sigmatick_scaled
      in 1 / sqrt (sig2i * pi) * exp (of_int (- i * i) / sig2i)
           * 1 / sqrt (sig2j * pi) * exp (of_int (- j * j) / sig2j))"

text \<open>The offsets visited by the two nested loops, in order.\<close>

definition kernel_offsets :: "int \<Rightarrow> int \<Rightarrow> int \<Rightarrow> (int \<times> int) list" where
  "kernel_offsets blurwire blurtick kernel_scale =
     concat (map (\<lambda>i. map (\<lambda>j. (i, j)) [- blurtick * kernel_scale .. blurtick * kernel_scale])
                 [- blurwire .. blurwire])"

definition kernel_key :: "int \<Rightarrow> int \<Rightarrow> int \<Rightarrow> int \<Rightarrow> int \<times> int \<Rightarrow> int" where
  "kernel_key kernel_width blurwire blurtick kernel_scale ij =
     kernel_width * (snd ij + blurtick * kernel_scale) + (fst ij + blurwire)"

text \<open>\<^verbatim>\<open>kernel.at(key) = value\<close>.\<close>

definition put_at :: "'a list \<Rightarrow> int \<Rightarrow> 'a \<Rightarrow> error + 'a list" where
  "put_at xs i v = (if 0 \<le> i \<and> i < int (length xs) then Inr (xs[nat i := v]) else Inl OutOfRange)"

definition new_vector :: "int \<Rightarrow> error + real list" where
  "new_vector n = (if n < 0 then Inl LengthError else Inr (replicate (nat n) 0))"

text \<open>One iteration of the loop over \<open>fKernels\<close>: the kernel of tier \<open>t\<close>.\<close>

definition make_kernel :: "int \<Rightarrow> int \<Rightarrow> int \<Rightarrow> int \<Rightarrow> int \<Rightarrow> int \<Rightarrow> error + real list" where
  "make_kernel blurwire blurtick kernel_scale sigmawire sigmatick t =
     (let kernel_width = 2 * blurwire + 1;
          kernel_height = 2 * blurtick * kernel_scale + 1;
          sigmatick_scaled = sigmatick * t
      in case new_vector (kernel_width * kernel_height) of
           Inl e \<Rightarrow> Inl e
         | Inr kern \<Rightarrow>
             foldE (\<lambda>ij kern.
                      put_at kern (kernel_key kernel_width blurwire blurtick kernel_scale ij)
                        (kernel_value sigmawire sigmatick_scaled (fst ij) (snd ij)))
                   (kernel_offsets blurwire blurtick kernel_scale) kern)"

text \<open>The map \<open>allKernels\<close> after the loop over \<open>fKernels\<close>.\<close>

definition make_kernels ::
  "Config \<Rightarrow> int \<Rightarrow> int \<Rightarrow> int \<Rightarrow> int \<Rightarrow> error + (int \<rightharpoonup> real list)" where
  "make_kernels cfg blurwire blurtick sigmawire sigmatick =
     (let kernel_scale = fMaxTickWidthScale cfg + 1 in
      foldE (\<lambda>t allKernels.
               case make_kernel blurwire blurtick kernel_scale sigmawire sigmatick t of
                 Inl e \<Rightarrow> Inl e
               | Inr kern \<Rightarrow> Inr (allKernels(t \<mapsto> kern)))
            (fKernels cfg) Map.empty)"

section \<open>Convolver: \<^verbatim>\<open>Convolve\<close>\<close>

text \<open>C++ integer division and remainder truncate towards zero.\<close>

definition c_div :: "int \<Rightarrow> int \<Rightarrow> int" where
  "c_div a b = sgn a * sgn b * (\<bar>a\<bar> div \<bar>b\<bar>)"

definition c_mod :: "int \<Rightarrow> int \<Rightarrow> int" where
  "c_mod a b = a - b * c_div a b"

text \<open>The unchecked accesses \<^verbatim>\<open>v[i]\<close> and \<^verbatim>\<open>v[i][j]\<close>: undefined outside the vector.\<close>

definition raw_at :: "'a list \<Rightarrow> int \<Rightarrow> error + 'a" where
  "raw_at xs i =
     (if 0 \<le> i \<and> i < int (length xs) then Inr (xs ! nat i) else Inl UndefinedBehaviour)"

definition raw_at2 :: "'a list list \<Rightarrow> int \<Rightarrow> int \<Rightarrow> error + 'a" where
  "raw_at2 img i j = (case raw_at img i of Inl e \<Rightarrow> Inl e | Inr row \<Rightarrow> raw_at row j)"

text \<open>
  \<^verbatim>\<open>int tick_scale = widths[x][y] / fTickWidthRescale\<close>, then
  \<^verbatim>\<open>TMath::Max(TMath::Min(tick_scale, fMaxTickWidthScale), 1)\<close>. A zero rescale factor
  makes the quotient infinite or a NaN, whose conversion is undefined.
\<close>

definition clamp_tick_scale :: "Config \<Rightarrow> int \<Rightarrow> int" where
  "clamp_tick_scale cfg tick_scale = max (min tick_scale (fMaxTickWidthScale cfg)) 1"

definition tick_scale_of :: "Config \<Rightarrow> real \<Rightarrow> error + int" where
  "tick_scale_of cfg w =
     (if fTickWidthRescale cfg = 0 then Inl UndefinedNumeric
      else Inr (clamp_tick_scale cfg (to_int (w / fTickWidthRescale cfg))))"

text \<open>
  The search \<^verbatim>\<open>for (kernelIndex = tick_scale; correct_kernel.empty(); --kernelIndex)\<close>.
  It only stops on a non-empty kernel; below the least \<^verbatim>\<open>int\<close> the decrement overflows.
\<close>

function find_kernel :: "int list \<Rightarrow> (int \<rightharpoonup> real list) \<Rightarrow> int \<Rightarrow> error + real list" where
  "find_kernel ks kernels kernelIndex =
     (if kernelIndex < - 2147483648 then Inl UndefinedBehaviour
      else if kernelIndex \<in> set ks then
        (case kernels kernelIndex of
           None \<Rightarrow> Inl OutOfRange
         | Some k \<Rightarrow> if k = [] then find_kernel ks kernels (kernelIndex - 1) else Inr k)
      else find_kernel ks kernels (kernelIndex - 1))"
  by pat_completeness auto
termination
  by (relation "measure (\<lambda>(ks, kernels, kernelIndex). nat (kernelIndex + 2147483649))") auto

declare find_kernel.simps [simp del]

text \<open>The offsets of the blurring region around a cell, in loop order.\<close>

definition blur_offsets :: "int \<Rightarrow> int \<Rightarrow> int \<Rightarrow> (int \<times> int) list" where
  "blur_offsets width height tick_scale =
     (let lowerWidth = c_div (- width) 2;
          upperWidth = c_div (width + 1) 2;
          lowerHeight = c_div (- height) 2;
          upperHeight = c_div (height + 1) 2
      in concat (map (\<lambda>blurx. map (\<lambda>blury. (blurx, blury))
                                    [lowerHeight * tick_scale .. upperHeight * tick_scale - 1])
                     [lowerWidth .. upperWidth - 1]))"

text \<open>The index into the selected kernel's flat array for one offset.\<close>

definition weight_index :: "int \<Rightarrow> int \<Rightarrow> int \<times> int \<Rightarrow> int" where
  "weight_index kernel_width kernel_height b =
     kernel_width * (c_div kernel_height 2 + snd b) + (c_div kernel_width 2 + fst b)"

text \<open>The body of the innermost loop: one offset of one source cell.\<close>

definition smear ::
  "real list \<Rightarrow> int \<Rightarrow> int \<Rightarrow> int \<Rightarrow> int \<Rightarrow> int \<Rightarrow> int \<Rightarrow> real \<Rightarrow> int \<times> int \<Rightarrow> image \<Rightarrow>
     error + image" where
  "smear correct_kernel kernel_width kernel_height nbinsx nbinsy x y v b copy =
     (case vec_at correct_kernel (weight_index kernel_width kernel_height b) of
        Inl e \<Rightarrow> Inl e
      | Inr weight \<Rightarrow>
          let blurx = fst b; blury = snd b in
          if x + blurx \<ge> 0 \<and> x + blurx < nbinsx \<and> y + blury \<ge> 0 \<and> y + blury < nbinsy
          then Inr (copy[nat (x + blurx) :=
                      (copy ! nat (x + blurx))
                        [nat (y + blury) := copy ! nat (x + blurx) ! nat (y + blury) + weight * v]])
          else Inr copy)"

text \<open>The body of the loop over source cells.\<close>

definition convolve_cell ::
  "Config \<Rightarrow> image \<Rightarrow> image \<Rightarrow> (int \<rightharpoonup> real list) \<Rightarrow> int \<Rightarrow> int \<Rightarrow> int \<Rightarrow> int \<Rightarrow>
     int \<Rightarrow> int \<Rightarrow> int \<times> int \<Rightarrow> image \<Rightarrow> error + image" where
  "convolve_cell cfg img widths kernels kernel_width kernel_height width height nbinsx nbinsy xy copy =
     (case raw_at2 img (fst xy) (snd xy) of
        Inl e \<Rightarrow> Inl e
      | Inr v \<Rightarrow>
          if v = 0 then Inr copy
          else
            (case raw_at2 widths (fst xy) (snd xy) of
               Inl e \<Rightarrow> Inl e
             | Inr w \<Rightarrow>
                 (case tick_scale_of cfg w of
                    Inl e \<Rightarrow> Inl e
                  | Inr tick_scale \<Rightarrow>
                      (case find_kernel (fKernels cfg) kernels tick_scale of
                         Inl e \<Rightarrow> Inl e
                       | Inr correct_kernel \<Rightarrow>
                           foldE (smear correct_kernel kernel_width kernel_height nbinsx nbinsy
                                    (fst xy) (snd xy) v)
                                 (blur_offsets width height tick_scale) copy))))"

definition Convolve ::
  "Config \<Rightarrow> image \<Rightarrow> image \<Rightarrow> (int \<rightharpoonup> real list) \<Rightarrow> int \<Rightarrow> int \<Rightarrow> int \<Rightarrow> int \<Rightarrow> error + image" where
  "Convolve cfg img widths kernels kernel_width kernel_height width height =
     (case vec_at img 0 of
        Inl e \<Rightarrow> Inl e
      | Inr row0 \<Rightarrow>
          let nbinsx = int (length img);
              nbinsy = int (length row0);
              copy = replicate (nat nbinsx) (replicate (nat nbinsy) 0)
          in foldE (convolve_cell cfg img widths kernels kernel_width kernel_height width height
                      nbinsx nbinsy)
                   (concat (map (\<lambda>x. map (\<lambda>y. (x, y)) [0 .. nbinsy - 1]) [0 .. nbinsx - 1]))
                   copy)"

definition GaussianBlur :: "Config \<Rightarrow> AlgState \<Rightarrow> image \<Rightarrow> image \<Rightarrow> error + image" where
  "GaussianBlur cfg st img widths =
     (if fSigmaWire cfg = 0 \<and> fSigmaTick cfg = 0 then Inr img
      else
        case FindBlurringParameters cfg st of
          Inl e \<Rightarrow> Inl e
        | Inr (blurwire, blurtick, sigmawire, sigmatick) \<Rightarrow>
            let kernel_scale = fMaxTickWidthScale cfg + 1;
                width = 2 * blurwire + 1;
                height = 2 * blurtick + 1;
                kernel_width = width;
                kernel_height = 2 * blurtick * kernel_scale + 1
            in case make_kernels cfg blurwire blurtick sigmawire sigmatick of
                 Inl e \<Rightarrow> Inl e
               | Inr allKernels \<Rightarrow>
                   Convolve cfg img widths allKernels kernel_width kernel_height width height)"

section \<open>RegionGrower: \<^verbatim>\<open>FindClusters\<close>\<close>

definition GetTimeOfBin :: "AlgState \<Rightarrow> image \<Rightarrow> int \<Rightarrow> error + real" where
  "GetTimeOfBin st img bin =
     (case ConvertBinToRecobHit st img bin of
        Inl e \<Rightarrow> Inl e
      | Inr None \<Rightarrow> Inr (- 10000)
      | Inr (Some hit) \<Rightarrow> Inr (PeakTime hit))"

fun PassesTimeCut :: "Config \<Rightarrow> real list \<Rightarrow> real \<Rightarrow> bool" where
  "PassesTimeCut cfg [] time = False"
| "PassesTimeCut cfg (t # ts) time =
     (if \<bar>time - t\<bar> < fTimeThreshold cfg then True else PassesTimeCut cfg ts time)"

text \<open>The nine offsets of the loops \<^verbatim>\<open>for x in -1..1, for y in -1..1\<close>; the bodies skip (0, 0).\<close>

definition neighbour_offsets :: "(int \<times> int) list" where
  "neighbour_offsets = concat (map (\<lambda>x. map (\<lambda>y. (x, y)) [- 1 .. 1]) [- 1 .. 1])"

definition NumNeighbours :: "int \<Rightarrow> bool list \<Rightarrow> int \<Rightarrow> error + nat" where
  "NumNeighbours nbinsx used bin =
     foldE (\<lambda>xy neighbours.
              if fst xy = 0 \<and> snd xy = 0 then Inr neighbours
              else
                case vec_at used (bin + fst xy + snd xy * nbinsx) of
                  Inl e \<Rightarrow> Inl e
                | Inr u \<Rightarrow> Inr (if u then neighbours + 1 else neighbours))
           neighbour_offsets 0"

text \<open>The locals of one pass of the clustering loop.\<close>

record Growth =
  used :: "bool list"
  cluster :: "int list"
  times_v :: "real list"
  nadded :: nat
  nremoved :: nat

definition raw_put :: "'a list \<Rightarrow> int \<Rightarrow> 'a \<Rightarrow> error + 'a list" where
  "raw_put xs i v =
     (if 0 \<le> i \<and> i < int (length xs) then Inr (xs[nat i := v]) else Inl UndefinedBehaviour)"

text \<open>The test \<^verbatim>\<open>bin < nbinsx || bin % nbinsx == 0 || bin % nbinsx == nbinsx - 1 ||
  bin >= nbinsx * (nbinsy - 1)\<close> of hole filling and pruning. The remainder by a zero
  \<open>nbinsx\<close> is undefined: the callers test for it before (\<^verbatim>\<open>blurred.at(0)\<close> has thrown
  when the image has no row, so the case does not arise in a run).\<close>

definition on_border :: "int \<Rightarrow> int \<Rightarrow> int \<Rightarrow> bool" where
  "on_border nbinsx nbinsy bin =
     (bin < nbinsx \<or> c_mod bin nbinsx = 0 \<or> c_mod bin nbinsx = nbinsx - 1
        \<or> bin \<ge> nbinsx * (nbinsy - 1))"

subsection \<open>Growing\<close>

text \<open>
  The end of the body of the two loops over the neighbouring (x, y) of a clustered bin,
  from the time cut on: \<^verbatim>\<open>if (time > 0 && times.size() > 0 && !PassesTimeCut(times, time))
  continue;\<close> and the charge test.
\<close>

definition growing_time_cut_fails :: "Config \<Rightarrow> real list \<Rightarrow> real \<Rightarrow> bool" where
  "growing_time_cut_fails cfg ts time =
     (time > 0 \<and> length ts > 0 \<and> \<not> PassesTimeCut cfg ts time)"

definition grow_decide :: "Config \<Rightarrow> real \<Rightarrow> real \<Rightarrow> int \<Rightarrow> Growth \<Rightarrow> Growth" where
  "grow_decide cfg blurred_binval time bin s =
     (if growing_time_cut_fails cfg (times_v s) time then s
      else if blurred_binval > fChargeThreshold cfg then
        s\<lparr>used := (used s)[nat bin := True],
          cluster := cluster s @ [bin],
          times_v := (if time > 0 then times_v s @ [time] else times_v s),
          nadded := nadded s + 1\<rparr>
      else s)"

text \<open>The body of the two loops over the neighbouring (x, y) of a clustered bin.\<close>

definition grow_candidate ::
  "Config \<Rightarrow> AlgState \<Rightarrow> image \<Rightarrow> int \<Rightarrow> int \<Rightarrow> int \<Rightarrow> int \<Rightarrow> int \<times> int \<Rightarrow> Growth \<Rightarrow> error + Growth" where
  "grow_candidate cfg st blurred nbinsx nbinsy binx biny xy s =
     (let x = fst xy; y = snd xy in
      if (x = binx \<and> y = biny) \<or> (x \<ge> nbinsx \<or> y \<ge> nbinsy) \<or> (x < 0 \<or> y < 0) then Inr s
      else
        let bin = ConvertWireTickToBin blurred x y in
        if bin \<ge> nbinsx * nbinsy \<or> bin < 0 then Inr s
        else
          case raw_at (used s) bin of
            Inl e \<Rightarrow> Inl e
          | Inr u \<Rightarrow>
              if u then Inr s
              else
                case ConvertBinToCharge blurred bin of
                  Inl e \<Rightarrow> Inl e
                | Inr blurred_binval \<Rightarrow>
                    (case GetTimeOfBin st blurred bin of
                       Inl e \<Rightarrow> Inl e
                     | Inr time \<Rightarrow> Inr (grow_decide cfg blurred_binval time bin s)))"

text \<open>One iteration of the loop over \<open>clusBin\<close>: the neighbourhood of one clustered bin.\<close>

definition grow_around ::
  "Config \<Rightarrow> AlgState \<Rightarrow> image \<Rightarrow> int \<Rightarrow> int \<Rightarrow> int \<Rightarrow> Growth \<Rightarrow> error + Growth" where
  "grow_around cfg st blurred nbinsx nbinsy c s =
     (if nbinsx = 0 \<or> nbinsy = 0 then Inl UndefinedBehaviour
      else
        let binx = c_mod c nbinsx;
            biny = c_mod (c_div (c - binx) nbinsx) nbinsy
        in foldE (grow_candidate cfg st blurred nbinsx nbinsy binx biny)
             (concat (map (\<lambda>x. map (\<lambda>y. (x, y))
                                  [biny - fClusterTickDistance cfg .. biny + fClusterTickDistance cfg])
                          [binx - fClusterWireDistance cfg .. binx + fClusterWireDistance cfg]))
             s)"

text \<open>The number of unmarked cells: the measure of the growing loops.\<close>

definition unused :: "bool list \<Rightarrow> nat" where
  "unused u = length (filter Not u)"

lemma unused_update:
  "i < length u \<Longrightarrow> \<not> u ! i \<Longrightarrow> Suc (unused (u[i := True])) = unused u"
  unfolding unused_def
proof (induction u arbitrary: i)
  case Nil
  then show ?case by simp
next
  case (Cons a u)
  then show ?case by (cases i) auto
qed

lemma foldE_invariant:
  assumes step: "\<And>x s s'. f x s = Inr s' \<Longrightarrow> P s \<Longrightarrow> P s'"
    and run: "foldE f xs s = Inr s'"
    and init: "P s"
  shows "P s'"
  using run init
proof (induction xs arbitrary: s)
  case Nil
  then show ?case by simp
next
  case (Cons x xs)
  from Cons.prems(1) obtain s1 where s1: "f x s = Inr s1" and rest: "foldE f xs s1 = Inr s'"
    by (auto split: sum.splits)
  have "P s1" using step[OF s1 Cons.prems(2)] .
  then show ?case using Cons.IH[OF rest] by simp
qed

lemma grow_candidate_measure:
  assumes "grow_candidate cfg st blurred nbinsx nbinsy binx biny xy s = Inr s'"
  shows "unused (used s') + length (cluster s') = unused (used s) + length (cluster s)
       \<and> unused (used s') + nadded s' = unused (used s) + nadded s"
proof -
  have "(used s' = used s \<and> cluster s' = cluster s \<and> nadded s' = nadded s)
      \<or> (\<exists>bin. 0 \<le> bin \<and> nat bin < length (used s) \<and> \<not> used s ! nat bin \<and>
           used s' = (used s)[nat bin := True] \<and> cluster s' = cluster s @ [bin] \<and>
           nadded s' = nadded s + 1)"
    using assms unfolding grow_candidate_def grow_decide_def Let_def raw_at_def
    by (auto split: if_splits sum.splits)
  then show ?thesis
    using unused_update by fastforce
qed

lemma grow_around_measure:
  assumes "grow_around cfg st blurred nbinsx nbinsy c s = Inr s'"
  shows "unused (used s') + length (cluster s') = unused (used s) + length (cluster s)
       \<and> unused (used s') + nadded s' = unused (used s) + nadded s"
proof -
  let ?P = "\<lambda>t. unused (used t) + length (cluster t) = unused (used s) + length (cluster s)
       \<and> unused (used t) + nadded t = unused (used s) + nadded s"
  from assms obtain f xs where run: "foldE f xs s = Inr s'"
    and f: "f = grow_candidate cfg st blurred nbinsx nbinsy (c_mod c nbinsx)
                  (c_mod (c_div (c - c_mod c nbinsx) nbinsx) nbinsy)"
    unfolding grow_around_def Let_def by (auto split: if_splits)
  have "?P s'"
  proof (rule foldE_invariant[where P = ?P, OF _ run])
    fix x t t' assume "f x t = Inr t'" and "?P t"
    then show "?P t'" using grow_candidate_measure[of cfg st blurred nbinsx nbinsy _ _ x t t'] f
      by simp
  qed simp
  then show ?thesis .
qed

function grow_pass ::
  "Config \<Rightarrow> AlgState \<Rightarrow> image \<Rightarrow> int \<Rightarrow> int \<Rightarrow> nat \<Rightarrow> Growth \<Rightarrow> error + Growth" where
  "grow_pass cfg st blurred nbinsx nbinsy clusBin s =
     (if clusBin < length (cluster s) then
        (case grow_around cfg st blurred nbinsx nbinsy (cluster s ! clusBin) s of
           Inl e \<Rightarrow> Inl e
         | Inr s' \<Rightarrow> grow_pass cfg st blurred nbinsx nbinsy (Suc clusBin) s')
      else Inr s)"
  by pat_completeness auto
termination
proof (relation "measure (\<lambda>(cfg, st, blurred, nbinsx, nbinsy, clusBin, s).
          unused (used s) + length (cluster s) - clusBin)")
  show "wf (measure (\<lambda>(cfg, st, blurred, nbinsx, nbinsy, clusBin, s).
          unused (used s) + length (cluster s) - clusBin))" by simp
next
  fix cfg st blurred nbinsx nbinsy clusBin s s'
  assume lt: "clusBin < length (cluster s)"
    and step: "grow_around cfg st blurred nbinsx nbinsy (cluster s ! clusBin) s = Inr s'"
  from grow_around_measure[OF step]
  have "unused (used s') + length (cluster s') = unused (used s) + length (cluster s)" by simp
  with lt show "((cfg, st, blurred, nbinsx, nbinsy, Suc clusBin, s'),
                 (cfg, st, blurred, nbinsx, nbinsy, clusBin, s))
        \<in> measure (\<lambda>(cfg, st, blurred, nbinsx, nbinsy, clusBin, s).
          unused (used s) + length (cluster s) - clusBin)"
    by simp
qed

declare grow_pass.simps [simp del]

lemma grow_pass_measure:
  "grow_pass cfg st blurred nbinsx nbinsy clusBin s = Inr s' \<Longrightarrow>
     unused (used s') + nadded s' = unused (used s) + nadded s"
proof (induction cfg st blurred nbinsx nbinsy clusBin s rule: grow_pass.induct)
  case (1 cfg st blurred nbinsx nbinsy clusBin s)
  show ?case
  proof (cases "clusBin < length (cluster s)")
    case True
    with "1.prems" obtain s1 where
      s1: "grow_around cfg st blurred nbinsx nbinsy (cluster s ! clusBin) s = Inr s1"
      and rest: "grow_pass cfg st blurred nbinsx nbinsy (Suc clusBin) s1 = Inr s'"
      by (subst (asm) grow_pass.simps) (auto split: sum.splits)
    from "1.IH"[OF True s1 rest] grow_around_measure[OF s1] show ?thesis by simp
  next
    case False
    with "1.prems" show ?thesis by (subst (asm) grow_pass.simps) simp
  qed
qed

text \<open>The loop \<^verbatim>\<open>while (true) { nadded = 0; ...; if (nadded == 0) break; }\<close>.\<close>

function grow_loop ::
  "Config \<Rightarrow> AlgState \<Rightarrow> image \<Rightarrow> int \<Rightarrow> int \<Rightarrow> Growth \<Rightarrow> error + Growth" where
  "grow_loop cfg st blurred nbinsx nbinsy s =
     (case grow_pass cfg st blurred nbinsx nbinsy 0 (s\<lparr>nadded := 0\<rparr>) of
        Inl e \<Rightarrow> Inl e
      | Inr s' \<Rightarrow> if nadded s' = 0 then Inr s' else grow_loop cfg st blurred nbinsx nbinsy s')"
  by pat_completeness auto
termination
proof (relation "measure (\<lambda>(cfg, st, blurred, nbinsx, nbinsy, s). unused (used s))")
  show "wf (measure (\<lambda>(cfg, st, blurred, nbinsx, nbinsy, s). unused (used s)))" by simp
next
  fix cfg st blurred nbinsx nbinsy s s'
  assume pass: "grow_pass cfg st blurred nbinsx nbinsy 0 (s\<lparr>nadded := 0\<rparr>) = Inr s'"
    and more: "nadded s' \<noteq> 0"
  from grow_pass_measure[OF pass] more
  show "((cfg, st, blurred, nbinsx, nbinsy, s'), (cfg, st, blurred, nbinsx, nbinsy, s))
        \<in> measure (\<lambda>(cfg, st, blurred, nbinsx, nbinsy, s). unused (used s))"
    by simp
qed

declare grow_loop.simps [simp del]

text \<open>\<^verbatim>\<open>for (i < cluster.size()) used[cluster[i]] = false\<close>.\<close>

definition unmark :: "int list \<Rightarrow> bool list \<Rightarrow> error + bool list" where
  "unmark cl u = foldE (\<lambda>c u. raw_put u c False) cl u"

subsection \<open>Hole filling\<close>

text \<open>
  The end of the body of the loops over the neighbours of a clustered bin, for a bin that
  is not yet used: \<^verbatim>\<open>(NumNeighbours(nbinsx, used, neighbouringBin) > fNeighboursThreshold)
  && PassesTimeCut(times, time)\<close>.
\<close>

definition hole_decide :: "Config \<Rightarrow> nat \<Rightarrow> real \<Rightarrow> int \<Rightarrow> Growth \<Rightarrow> Growth" where
  "hole_decide cfg n time neighbouringBin s =
     (if int n > as_unsigned (fNeighboursThreshold cfg) \<and> PassesTimeCut cfg (times_v s) time then
        s\<lparr>used := (used s)[nat neighbouringBin := True],
          cluster := cluster s @ [neighbouringBin],
          times_v := (if time > 0 then times_v s @ [time] else times_v s)\<rparr>
      else s)"

definition hole_candidate ::
  "Config \<Rightarrow> AlgState \<Rightarrow> image \<Rightarrow> int \<Rightarrow> int \<Rightarrow> int \<Rightarrow> int \<times> int \<Rightarrow> Growth \<Rightarrow> error + Growth" where
  "hole_candidate cfg st blurred nbinsx nbinsy c xy s =
     (let x = fst xy; y = snd xy in
      if x = 0 \<and> y = 0 then Inr s
      else
        let neighbouringBin = c + x + y * nbinsx in
        if on_border nbinsx nbinsy neighbouringBin then Inr s
        else
          case GetTimeOfBin st blurred neighbouringBin of
            Inl e \<Rightarrow> Inl e
          | Inr time \<Rightarrow>
              (case raw_at (used s) neighbouringBin of
                 Inl e \<Rightarrow> Inl e
               | Inr u \<Rightarrow>
                   if u then Inr s
                   else
                     (case NumNeighbours nbinsx (used s) neighbouringBin of
                        Inl e \<Rightarrow> Inl e
                      | Inr n \<Rightarrow> Inr (hole_decide cfg n time neighbouringBin s))))"

definition hole_around ::
  "Config \<Rightarrow> AlgState \<Rightarrow> image \<Rightarrow> int \<Rightarrow> int \<Rightarrow> int \<Rightarrow> Growth \<Rightarrow> error + Growth" where
  "hole_around cfg st blurred nbinsx nbinsy c s =
     (if nbinsx = 0 then Inl UndefinedBehaviour
      else foldE (hole_candidate cfg st blurred nbinsx nbinsy c) neighbour_offsets s)"

lemma hole_candidate_measure:
  assumes "hole_candidate cfg st blurred nbinsx nbinsy c xy s = Inr s'"
  shows "unused (used s') + length (cluster s') = unused (used s) + length (cluster s)"
proof -
  have "(used s' = used s \<and> cluster s' = cluster s)
      \<or> (\<exists>bin. 0 \<le> bin \<and> nat bin < length (used s) \<and> \<not> used s ! nat bin \<and>
           used s' = (used s)[nat bin := True] \<and> cluster s' = cluster s @ [bin])"
    using assms unfolding hole_candidate_def hole_decide_def Let_def raw_at_def
    by (auto split: if_splits sum.splits)
  then show ?thesis
    using unused_update by fastforce
qed

lemma hole_around_measure:
  assumes "hole_around cfg st blurred nbinsx nbinsy c s = Inr s'"
  shows "unused (used s') + length (cluster s') = unused (used s) + length (cluster s)"
proof -
  let ?P = "\<lambda>t. unused (used t) + length (cluster t) = unused (used s) + length (cluster s)"
  from assms have run:
    "foldE (hole_candidate cfg st blurred nbinsx nbinsy c) neighbour_offsets s = Inr s'"
    unfolding hole_around_def by (auto split: if_splits)
  have "?P s'"
  proof (rule foldE_invariant[where P = ?P, OF _ run])
    fix x t t' assume "hole_candidate cfg st blurred nbinsx nbinsy c x t = Inr t'" and "?P t"
    then show "?P t'" using hole_candidate_measure[of cfg st blurred nbinsx nbinsy c x t t']
      by simp
  qed simp
  then show ?thesis .
qed

function hole_pass ::
  "Config \<Rightarrow> AlgState \<Rightarrow> image \<Rightarrow> int \<Rightarrow> int \<Rightarrow> nat \<Rightarrow> Growth \<Rightarrow> error + Growth" where
  "hole_pass cfg st blurred nbinsx nbinsy clusBin s =
     (if clusBin < length (cluster s) then
        (case hole_around cfg st blurred nbinsx nbinsy (cluster s ! clusBin) s of
           Inl e \<Rightarrow> Inl e
         | Inr s' \<Rightarrow> hole_pass cfg st blurred nbinsx nbinsy (Suc clusBin) s')
      else Inr s)"
  by pat_completeness auto
termination
proof (relation "measure (\<lambda>(cfg, st, blurred, nbinsx, nbinsy, clusBin, s).
          unused (used s) + length (cluster s) - clusBin)")
  show "wf (measure (\<lambda>(cfg, st, blurred, nbinsx, nbinsy, clusBin, s).
          unused (used s) + length (cluster s) - clusBin))" by simp
next
  fix cfg st blurred nbinsx nbinsy clusBin s s'
  assume lt: "clusBin < length (cluster s)"
    and step: "hole_around cfg st blurred nbinsx nbinsy (cluster s ! clusBin) s = Inr s'"
  from hole_around_measure[OF step] lt
  show "((cfg, st, blurred, nbinsx, nbinsy, Suc clusBin, s'),
                 (cfg, st, blurred, nbinsx, nbinsy, clusBin, s))
        \<in> measure (\<lambda>(cfg, st, blurred, nbinsx, nbinsy, clusBin, s).
          unused (used s) + length (cluster s) - clusBin)"
    by simp
qed

declare hole_pass.simps [simp del]

subsection \<open>Pruning\<close>

text \<open>The body of the reverse loop over \<open>clusBin\<close>; the charge read after the erasure is
  not used, but the read is checked. In \<^verbatim>\<open>(int) NumNeighbours(...) < fMinNeighbours\<close> the cast
  makes the comparison one of \<^verbatim>\<open>int\<close> values for a member declared \<^verbatim>\<open>int\<close>, as here;
  for a member declared \<^verbatim>\<open>unsigned int\<close> a negative configured value would convert as
  in \<open>as_unsigned\<close>. The two readings agree for every non-negative \<open>fMinNeighbours\<close>, and
  the properties below hold on both branches of the test.\<close>

definition prune_at :: "Config \<Rightarrow> image \<Rightarrow> int \<Rightarrow> int \<Rightarrow> nat \<Rightarrow> Growth \<Rightarrow> error + Growth" where
  "prune_at cfg blurred nbinsx nbinsy clusBin s =
     (case raw_at (cluster s) (int clusBin) of
        Inl e \<Rightarrow> Inl e
      | Inr bin \<Rightarrow>
          if nbinsx = 0 then Inl UndefinedBehaviour
          else if on_border nbinsx nbinsy bin then Inr s
          else
            (case NumNeighbours nbinsx (used s) bin of
               Inl e \<Rightarrow> Inl e
             | Inr n \<Rightarrow>
                 if int n < fMinNeighbours cfg then
                   (case raw_put (used s) bin False of
                      Inl e \<Rightarrow> Inl e
                    | Inr used' \<Rightarrow>
                        (case ConvertBinToCharge blurred bin of
                           Inl e \<Rightarrow> Inl e
                         | Inr blurred_binval \<Rightarrow>
                             Inr (s\<lparr>used := used',
                                    cluster := take clusBin (cluster s) @ drop (Suc clusBin) (cluster s),
                                    nremoved := nremoved s + 1\<rparr>)))
                 else Inr s))"

text \<open>\<^verbatim>\<open>for (clusBin = cluster.size() - 1; clusBin >= 0; clusBin--)\<close>: the argument counts
  the indices still to visit.\<close>

fun prune_pass :: "Config \<Rightarrow> image \<Rightarrow> int \<Rightarrow> int \<Rightarrow> nat \<Rightarrow> Growth \<Rightarrow> error + Growth" where
  "prune_pass cfg blurred nbinsx nbinsy 0 s = Inr s"
| "prune_pass cfg blurred nbinsx nbinsy (Suc clusBin) s =
     (case prune_at cfg blurred nbinsx nbinsy clusBin s of
        Inl e \<Rightarrow> Inl e
      | Inr s' \<Rightarrow> prune_pass cfg blurred nbinsx nbinsy clusBin s')"

lemma prune_at_measure:
  assumes "prune_at cfg blurred nbinsx nbinsy clusBin s = Inr s'"
  shows "length (cluster s') + nremoved s' = length (cluster s) + nremoved s"
  using assms unfolding prune_at_def raw_at_def
  by (auto split: if_splits sum.splits)

lemma prune_pass_measure:
  "prune_pass cfg blurred nbinsx nbinsy k s = Inr s' \<Longrightarrow>
     length (cluster s') + nremoved s' = length (cluster s) + nremoved s"
proof (induction k arbitrary: s)
  case 0
  then show ?case by simp
next
  case (Suc k)
  from Suc.prems obtain s1 where s1: "prune_at cfg blurred nbinsx nbinsy k s = Inr s1"
    and rest: "prune_pass cfg blurred nbinsx nbinsy k s1 = Inr s'"
    by (auto split: sum.splits)
  from Suc.IH[OF rest] prune_at_measure[OF s1] show ?case by simp
qed

function prune_loop :: "Config \<Rightarrow> image \<Rightarrow> int \<Rightarrow> int \<Rightarrow> Growth \<Rightarrow> error + Growth" where
  "prune_loop cfg blurred nbinsx nbinsy s =
     (case prune_pass cfg blurred nbinsx nbinsy (length (cluster s)) (s\<lparr>nremoved := 0\<rparr>) of
        Inl e \<Rightarrow> Inl e
      | Inr s' \<Rightarrow> if nremoved s' = 0 then Inr s' else prune_loop cfg blurred nbinsx nbinsy s')"
  by pat_completeness auto
termination
proof (relation "measure (\<lambda>(cfg, blurred, nbinsx, nbinsy, s). length (cluster s))")
  show "wf (measure (\<lambda>(cfg, blurred, nbinsx, nbinsy, s). length (cluster s)))" by simp
next
  fix cfg blurred nbinsx nbinsy s s'
  assume pass: "prune_pass cfg blurred nbinsx nbinsy (length (cluster s)) (s\<lparr>nremoved := 0\<rparr>) = Inr s'"
    and more: "nremoved s' \<noteq> 0"
  from prune_pass_measure[OF pass] more
  show "((cfg, blurred, nbinsx, nbinsy, s'), (cfg, blurred, nbinsx, nbinsy, s))
        \<in> measure (\<lambda>(cfg, blurred, nbinsx, nbinsy, s). length (cluster s))"
    by simp
qed

declare prune_loop.simps [simp del]

subsection \<open>One cluster, and the loop over the seeds\<close>

text \<open>
  One iteration of the outer loop from the seed on: the new mask, and the cluster when it
  is kept. \<open>seed_state\<close> holds the locals when the growing loop is entered.
\<close>

definition seed_state :: "bool list \<Rightarrow> int \<Rightarrow> real \<Rightarrow> Growth" where
  "seed_state used1 bin time =
     \<lparr>used = used1, cluster = [bin], times_v = (if time > 0 then [time] else []),
      nadded = 0, nremoved = 0\<rparr>"

definition form_cluster ::
  "Config \<Rightarrow> AlgState \<Rightarrow> image \<Rightarrow> int \<Rightarrow> int \<Rightarrow> int \<Rightarrow> bool list \<Rightarrow>
     error + (bool list \<times> int list option)" where
  "form_cluster cfg st blurred nbinsx nbinsy bin used0 =
     (case raw_put used0 bin True of
        Inl e \<Rightarrow> Inl e
      | Inr used1 \<Rightarrow>
          (case GetTimeOfBin st blurred bin of
             Inl e \<Rightarrow> Inl e
           | Inr time \<Rightarrow>
               (case grow_loop cfg st blurred nbinsx nbinsy (seed_state used1 bin time) of
                  Inl e \<Rightarrow> Inl e
                | Inr s1 \<Rightarrow>
                    if size_below (length (cluster s1)) (fMinSize cfg) then
                      (case unmark (cluster s1) (used s1) of
                         Inl e \<Rightarrow> Inl e
                       | Inr u \<Rightarrow> Inr (u, None))
                    else
                      (case hole_pass cfg st blurred nbinsx nbinsy 0 s1 of
                         Inl e \<Rightarrow> Inl e
                       | Inr s2 \<Rightarrow>
                           (case prune_loop cfg blurred nbinsx nbinsy s2 of
                              Inl e \<Rightarrow> Inl e
                            | Inr s3 \<Rightarrow>
                                if size_below (length (cluster s3)) (fMinSize cfg) then
                                  (case unmark (cluster s3) (used s3) of
                                     Inl e \<Rightarrow> Inl e
                                   | Inr u \<Rightarrow> Inr (u, None))
                                else Inr (used s3, Some (cluster s3)))))))"

text \<open>
  The outer \<^verbatim>\<open>while (true)\<close>; the list is \<^verbatim>\<open>values\<close> from index \<open>niter\<close> on. Nothing
  stops \<open>niter\<close> at the end of \<^verbatim>\<open>values\<close>: when every cell reaches the seed minimum,
  \<^verbatim>\<open>values[niter]\<close> reads past the end.
\<close>

fun seed_loop ::
  "Config \<Rightarrow> AlgState \<Rightarrow> image \<Rightarrow> int \<Rightarrow> int \<Rightarrow> (real \<times> int) list \<Rightarrow> bool list \<Rightarrow>
     int list list \<Rightarrow> error + (int list list \<times> bool list)" where
  "seed_loop cfg st blurred nbinsx nbinsy [] used0 allcluster = Inl UndefinedBehaviour"
| "seed_loop cfg st blurred nbinsx nbinsy (v # vs) used0 allcluster =
     (if fst v < fMinSeed cfg then Inr (allcluster, used0)
      else
        case raw_at used0 (snd v) of
          Inl e \<Rightarrow> Inl e
        | Inr u \<Rightarrow>
            if u then seed_loop cfg st blurred nbinsx nbinsy vs used0 allcluster
            else
              (case form_cluster cfg st blurred nbinsx nbinsy (snd v) used0 of
                 Inl e \<Rightarrow> Inl e
               | Inr (used1, None) \<Rightarrow>
                   seed_loop cfg st blurred nbinsx nbinsy vs used1 allcluster
               | Inr (used1, Some c) \<Rightarrow>
                   seed_loop cfg st blurred nbinsx nbinsy vs used1 (allcluster @ [c])))"

text \<open>The (charge, bin) pairs of all cells, in the order of the two loops.\<close>

definition cell_values :: "image \<Rightarrow> int \<Rightarrow> int \<Rightarrow> error + (real \<times> int) list" where
  "cell_values blurred nbinsx nbinsy =
     foldE (\<lambda>xy values.
              let bin = ConvertWireTickToBin blurred (fst xy) (snd xy) in
              case ConvertBinToCharge blurred bin of
                Inl e \<Rightarrow> Inl e
              | Inr v \<Rightarrow> Inr (values @ [(v, bin)]))
           (concat (map (\<lambda>xbin. map (\<lambda>ybin. (xbin, ybin)) [0 .. nbinsy - 1]) [0 .. nbinsx - 1]))
           []"

text \<open>
  \<^verbatim>\<open>FindClusters\<close> together with the final mask \<open>used\<close>, a local of the source.
  \<^verbatim>\<open>std::sort(values.rbegin(), values.rend())\<close> leaves the pairs in descending
  lexicographic order.
\<close>

definition FindClusters_run ::
  "Config \<Rightarrow> AlgState \<Rightarrow> image \<Rightarrow> int list list \<Rightarrow> error + (int list list \<times> bool list)" where
  "FindClusters_run cfg st blurred allcluster =
     (case vec_at blurred 0 of
        Inl e \<Rightarrow> Inl e
      | Inr row0 \<Rightarrow>
          let nbinsx = int (length blurred);
              nbinsy = int (length row0);
              nbins = nbinsx * nbinsy
          in case cell_values blurred nbinsx nbinsy of
               Inl e \<Rightarrow> Inl e
             | Inr values \<Rightarrow>
                 seed_loop cfg st blurred nbinsx nbinsy (rev (sort values))
                   (replicate (nat nbins) False) allcluster)"

text \<open>The clusters left in \<open>allcluster\<close> and the returned count.\<close>

definition FindClusters ::
  "Config \<Rightarrow> AlgState \<Rightarrow> image \<Rightarrow> int list list \<Rightarrow> error + (int list list \<times> int)" where
  "FindClusters cfg st blurred allcluster =
     (case FindClusters_run cfg st blurred allcluster of
        Inl e \<Rightarrow> Inl e
      | Inr (allcluster', used') \<Rightarrow> Inr (allcluster', int (length allcluster')))"

section \<open>Notions used to state the properties\<close>

text \<open>An image of \<open>n\<close> rows of \<open>m\<close> cells each.\<close>

definition rect :: "nat \<Rightarrow> nat \<Rightarrow> 'a list list \<Rightarrow> bool" where
  "rect n m img \<longleftrightarrow> length img = n \<and> (\<forall>row \<in> set img. length row = m)"

text \<open>The cells marked in a mask, and the invariant of one cluster in the making: its cells
  are distinct, apart from the cells \<open>A\<close> of the accepted clusters, and the mask marks
  exactly both.\<close>

definition marked :: "bool list \<Rightarrow> int set" where
  "marked u = {b. 0 \<le> b \<and> b < int (length u) \<and> u ! nat b}"

definition growth_inv :: "int set \<Rightarrow> Growth \<Rightarrow> bool" where
  "growth_inv A s \<longleftrightarrow>
     distinct (cluster s) \<and> set (cluster s) \<inter> A = {} \<and> marked (used s) = set (cluster s) \<union> A"

text \<open>The clusters appended by a run: pairwise disjoint, each without repetition.\<close>

definition disjoint_clusters :: "int list list \<Rightarrow> bool" where
  "disjoint_clusters cs \<longleftrightarrow>
     (\<forall>i j. i < j \<and> j < length cs \<longrightarrow> set (cs ! i) \<inter> set (cs ! j) = {})
     \<and> (\<forall>c \<in> set cs. distinct c)"

section \<open>Concrete inputs\<close>

text \<open>Configurations, detectors, hits, states of the algorithm, images and states of a
  cluster in the making, for the concrete instances of the properties.\<close>

definition config_a :: Config where
  "config_a = \<lparr>fBlurWire = 1, fBlurTick = 1, fSigmaWire = 1, fSigmaTick = 1, fTickWidthRescale = 1,
     fMaxTickWidthScale = 3, fKernels = [1], fClusterWireDistance = 1, fClusterTickDistance = 1,
     fNeighboursThreshold = 0, fMinNeighbours = 0, fMinSize = 1, fMinSeed = 1, fTimeThreshold = 1,
     fChargeThreshold = 1\<rparr>"

definition config_c :: Config where
  "config_c = config_a\<lparr>fMinSize := 2\<rparr>"

definition detector_a :: Detector where
  "detector_a = \<lparr>ReadOutWindowSize = 1000, MaxWires = 500\<rparr>"

definition detector_s :: Detector where
  "detector_s = \<lparr>ReadOutWindowSize = 39, MaxWires = 38\<rparr>"

definition hit_a :: Hit where
  "hit_a = \<lparr>key = 0, GlobalWire = 10, PeakTime = 100, Integral = 50, RMS = 2\<rparr>"

definition hit_b :: Hit where
  "hit_b = \<lparr>key = 0, GlobalWire = 10, PeakTime = 100, Integral = 50, RMS = 3\<rparr>"

definition hit_c :: Hit where
  "hit_c = \<lparr>key = 1, GlobalWire = 11, PeakTime = 100, Integral = 40, RMS = 3\<rparr>"

definition hit_d :: Hit where
  "hit_d = \<lparr>key = 2, GlobalWire = 10, PeakTime = 100.25, Integral = 30, RMS = 5\<rparr>"

definition hit_e :: Hit where
  "hit_e = \<lparr>key = 3, GlobalWire = 10, PeakTime = 100.5, Integral = - 1, RMS = 1\<rparr>"

definition hit_f :: Hit where
  "hit_f = \<lparr>key = 4, GlobalWire = 10, PeakTime = 100.75, Integral = - 2, RMS = 2\<rparr>"

definition hit_g :: Hit where
  "hit_g = \<lparr>key = 5, GlobalWire = 0, PeakTime = - 1 / 2, Integral = 2, RMS = 1\<rparr>"

definition state_0 :: AlgState where
  "state_0 = \<lparr>fLowerHistTick = 0, fUpperHistTick = 9, fLowerHistWire = 0, fUpperHistWire = 3,
     fHitMap = []\<rparr>"

definition state_bc :: AlgState where
  "state_bc = \<lparr>fLowerHistTick = 80, fUpperHistTick = 120, fLowerHistWire = - 10, fUpperHistWire = 31,
     fHitMap = [((10, 100), hit_b), ((11, 100), hit_c)]\<rparr>"

definition image_bc :: image where
  "image_bc = (replicate 41 (replicate 40 0))
                [20 := (replicate 40 0)[20 := 50], 21 := (replicate 40 0)[20 := 40]]"

definition widths_bc :: image where
  "widths_bc = (replicate 41 (replicate 40 0))
                [20 := (replicate 40 0)[20 := 3], 21 := (replicate 40 0)[20 := 3]]"

definition state_g :: AlgState where
  "state_g = \<lparr>fLowerHistTick = 0, fUpperHistTick = 3, fLowerHistWire = 0, fUpperHistWire = 3,
     fHitMap = [((0, 0), hit_g)]\<rparr>"

definition blurred_a :: image where
  "blurred_a = [[0, 0, 0, 0, 0, 0, 0, 0, 0], [0, 5, 2, 0, 9, 0, 6, 3, 0], [0, 0, 0, 0, 0, 0, 0, 0, 0]]"

definition blurred_c :: image where
  "blurred_c = [[2, 2, 2], [2, 2, 2], [2, 2, 2]]"

definition growth_b :: Growth where
  "growth_b = \<lparr>used = [True, True, True, True, False, True, True, True, True],
                cluster = [0, 1, 2, 3, 5, 6, 7, 8], times_v = [], nadded = 0, nremoved = 0\<rparr>"

definition growth_c :: Growth where
  "growth_c = growth_b\<lparr>times_v := [1 / 4]\<rparr>"

definition config_n :: Config where
  "config_n = config_a\<lparr>fNeighboursThreshold := - 1\<rparr>"

definition config_z :: Config where
  "config_z = config_a\<lparr>fMaxTickWidthScale := 0\<rparr>"

definition hit_t :: Hit where
  "hit_t = \<lparr>key = 8, GlobalWire = 10, PeakTime = 100.5, Integral = 50, RMS = 7\<rparr>"

section \<open>Properties of the image builder\<close>

lemma rect_replicate: "rect n m (replicate n (replicate m v))"
  by (simp add: rect_def)

lemma at2_rect:
  assumes "rect n m img"
  shows "at2 img i j = (if 0 \<le> i \<and> i < int n \<and> 0 \<le> j \<and> j < int m
                        then Inr (img ! nat i ! nat j) else Inl OutOfRange)"
  using assms by (auto simp: at2_def vec_at_def rect_def)

lemma rect_update:
  assumes "rect n m img" "0 \<le> i" "i < int n" "0 \<le> j" "j < int m"
  shows "rect n m (img[nat i := (img ! nat i)[nat j := v]])"
  using assms unfolding rect_def
  by (auto dest!: set_update_subset_insert[THEN subsetD])

lemma nth_update2:
  assumes "rect n m img" "0 \<le> i" "i < int n" "0 \<le> j" "j < int m"
    and "0 \<le> i'" "i' < int n" "0 \<le> j'" "j' < int m"
  shows "img[nat i := (img ! nat i)[nat j := v]] ! nat i' ! nat j'
           = (if i' = i \<and> j' = j then v else img ! nat i' ! nat j')"
proof -
  have len: "length img = n" "length (img ! nat i) = m" using assms by (auto simp: rect_def)
  show ?thesis
  proof (cases "i' = i")
    case True
    then show ?thesis using assms len by (auto simp: nth_list_update)
  next
    case False
    then have "nat i' \<noteq> nat i" using assms by auto
    then show ?thesis using False by simp
  qed
qed

lemma put2_rect:
  assumes "rect n m img" "0 \<le> i" "i < int n" "0 \<le> j" "j < int m"
  shows "put2 img i j v = Inr (img[nat i := (img ! nat i)[nat j := v]])"
  using assms by (simp add: put2_def at2_rect)

lemma fill_hits_cell:
  assumes "fill_hits lw lt hs (img, wid, hm) = Inr (img', wid', hm')"
    and "rect n m img" and "rect n m wid"
  shows "rect n m img' \<and> rect n m wid'
       \<and> (\<forall>i j. 0 \<le> i \<and> i < int n \<and> 0 \<le> j \<and> j < int m \<longrightarrow>
             (img' ! nat i ! nat j, wid' ! nat i ! nat j, map_of hm' (i + lw, j + lt))
               = cell_after (i + lw, j + lt) hs
                   (img ! nat i ! nat j, wid ! nat i ! nat j, map_of hm (i + lw, j + lt)))"
  using assms
proof (induction hs arbitrary: img wid hm)
  case Nil
  then show ?case by simp
next
  case (Cons h hs)
  let ?i = "GlobalWire h - lw"
  let ?j = "to_int (PeakTime h) - lt"
  from Cons.prems(1) obtain stored where st: "at2 img ?i ?j = Inr stored"
    by (auto simp: Let_def split: sum.splits)
  with Cons.prems(2) have rng: "0 \<le> ?i" "?i < int n" "0 \<le> ?j" "?j < int m"
    and stored: "stored = img ! nat ?i ! nat ?j"
    by (auto simp: at2_rect split: if_splits)
  have cell: "\<And>i j. hit_cell h = (i + lw, j + lt) \<longleftrightarrow> i = ?i \<and> j = ?j"
    by (auto simp: hit_cell_def)
  show ?case
  proof (cases "Integral h > stored")
    case True
    let ?img1 = "img[nat ?i := (img ! nat ?i)[nat ?j := Integral h]]"
    let ?wid1 = "wid[nat ?i := (wid ! nat ?i)[nat ?j := RMS h]]"
    let ?hm1 = "AList.update (GlobalWire h, to_int (PeakTime h)) h hm"
    have p1: "put2 img ?i ?j (Integral h) = Inr ?img1" using put2_rect[OF Cons.prems(2) rng] .
    have p2: "put2 wid ?i ?j (RMS h) = Inr ?wid1" using put2_rect[OF Cons.prems(3) rng] .
    have run: "fill_hits lw lt hs (?img1, ?wid1, ?hm1) = Inr (img', wid', hm')"
      using Cons.prems(1) st True p1 p2 by (simp add: Let_def)
    have r1: "rect n m ?img1" using rect_update[OF Cons.prems(2) rng] .
    have r2: "rect n m ?wid1" using rect_update[OF Cons.prems(3) rng] .
    from Cons.IH[OF run r1 r2] have
      IH: "rect n m img' \<and> rect n m wid'
       \<and> (\<forall>i j. 0 \<le> i \<and> i < int n \<and> 0 \<le> j \<and> j < int m \<longrightarrow>
             (img' ! nat i ! nat j, wid' ! nat i ! nat j, map_of hm' (i + lw, j + lt))
               = cell_after (i + lw, j + lt) hs
                   (?img1 ! nat i ! nat j, ?wid1 ! nat i ! nat j, map_of ?hm1 (i + lw, j + lt)))" .
    have "\<forall>i j. 0 \<le> i \<and> i < int n \<and> 0 \<le> j \<and> j < int m \<longrightarrow>
             cell_after (i + lw, j + lt) hs
                   (?img1 ! nat i ! nat j, ?wid1 ! nat i ! nat j, map_of ?hm1 (i + lw, j + lt))
             = cell_after (i + lw, j + lt) (h # hs)
                   (img ! nat i ! nat j, wid ! nat i ! nat j, map_of hm (i + lw, j + lt))"
    proof (intro allI impI)
      fix i j assume ij: "0 \<le> i \<and> i < int n \<and> 0 \<le> j \<and> j < int m"
      then have a: "?img1 ! nat i ! nat j = (if i = ?i \<and> j = ?j then Integral h else img ! nat i ! nat j)"
        using nth_update2[OF Cons.prems(2) rng, of i j] by simp
      from ij have b: "?wid1 ! nat i ! nat j = (if i = ?i \<and> j = ?j then RMS h else wid ! nat i ! nat j)"
        using nth_update2[OF Cons.prems(3) rng, of i j] by simp
      have c: "map_of ?hm1 (i + lw, j + lt)
                 = (if i = ?i \<and> j = ?j then Some h else map_of hm (i + lw, j + lt))"
        by (auto simp: update_conv')
      show "cell_after (i + lw, j + lt) hs
                   (?img1 ! nat i ! nat j, ?wid1 ! nat i ! nat j, map_of ?hm1 (i + lw, j + lt))
             = cell_after (i + lw, j + lt) (h # hs)
                   (img ! nat i ! nat j, wid ! nat i ! nat j, map_of hm (i + lw, j + lt))"
        unfolding a b c using True stored cell[of i j] by auto
    qed
    with IH show ?thesis by simp
  next
    case False
    have run: "fill_hits lw lt hs (img, wid, hm) = Inr (img', wid', hm')"
      using Cons.prems(1) st False by (simp add: Let_def)
    from Cons.IH[OF run Cons.prems(2,3)] have
      IH: "rect n m img' \<and> rect n m wid'
       \<and> (\<forall>i j. 0 \<le> i \<and> i < int n \<and> 0 \<le> j \<and> j < int m \<longrightarrow>
             (img' ! nat i ! nat j, wid' ! nat i ! nat j, map_of hm' (i + lw, j + lt))
               = cell_after (i + lw, j + lt) hs
                   (img ! nat i ! nat j, wid ! nat i ! nat j, map_of hm (i + lw, j + lt)))" .
    have "\<forall>i j. 0 \<le> i \<and> i < int n \<and> 0 \<le> j \<and> j < int m \<longrightarrow>
             cell_after (i + lw, j + lt) hs
                   (img ! nat i ! nat j, wid ! nat i ! nat j, map_of hm (i + lw, j + lt))
             = cell_after (i + lw, j + lt) (h # hs)
                   (img ! nat i ! nat j, wid ! nat i ! nat j, map_of hm (i + lw, j + lt))"
      using False stored cell by auto
    with IH show ?thesis by simp
  qed
qed

lemma fill_hits_total:
  assumes "rect n m img" and "rect n m wid"
    and "\<And>h. h \<in> set hs \<Longrightarrow> 0 \<le> GlobalWire h - lw \<and> GlobalWire h - lw < int n
                \<and> 0 \<le> to_int (PeakTime h) - lt \<and> to_int (PeakTime h) - lt < int m"
  shows "\<exists>r. fill_hits lw lt hs (img, wid, hm) = Inr r"
  using assms
proof (induction hs arbitrary: img wid hm)
  case Nil
  then show ?case by simp
next
  case (Cons h hs)
  let ?i = "GlobalWire h - lw"
  let ?j = "to_int (PeakTime h) - lt"
  have rng: "0 \<le> ?i" "?i < int n" "0 \<le> ?j" "?j < int m" using Cons.prems(3)[of h] by auto
  have rest: "\<And>h. h \<in> set hs \<Longrightarrow> 0 \<le> GlobalWire h - lw \<and> GlobalWire h - lw < int n
                \<and> 0 \<le> to_int (PeakTime h) - lt \<and> to_int (PeakTime h) - lt < int m"
    using Cons.prems(3) by simp
  have st: "at2 img ?i ?j = Inr (img ! nat ?i ! nat ?j)" using rng by (simp add: at2_rect[OF Cons.prems(1)])
  show ?case
  proof (cases "Integral h > img ! nat ?i ! nat ?j")
    case True
    from Cons.IH[OF rect_update[OF Cons.prems(1) rng] rect_update[OF Cons.prems(2) rng] rest]
    show ?thesis
      using st True put2_rect[OF Cons.prems(1) rng] put2_rect[OF Cons.prems(2) rng]
      by (simp add: Let_def)
  next
    case False
    from Cons.IH[OF Cons.prems(1,2) rest] show ?thesis using st False by (simp add: Let_def)
  qed
qed

lemma to_int_of_int: "to_int (of_int k) = k"
  by (simp add: to_int_def)

lemma to_int_mono: "a \<le> b \<Longrightarrow> to_int a \<le> to_int b"
proof -
  assume ab: "a \<le> b"
  consider "0 \<le> a" | "a < 0" "b < 0" | "a < 0" "0 \<le> b" by linarith
  then show ?thesis
  proof cases
    case 1
    with ab show ?thesis by (simp add: to_int_def floor_mono)
  next
    case 2
    with ab show ?thesis by (simp add: to_int_def ceiling_mono)
  next
    case 3
    then have "\<lceil>a\<rceil> \<le> 0" "0 \<le> \<lfloor>b\<rfloor>" by (simp_all add: ceiling_le_iff)
    then have "\<lceil>a\<rceil> \<le> \<lfloor>b\<rfloor>" by linarith
    with 3 show ?thesis by (simp add: to_int_def)
  qed
qed

lemma scan_bounds_covers:
  assumes "scan_bounds hs (lt0, ut0, lw0, uw0) = (lt, ut, lw, uw)"
  shows "lt \<le> lt0 \<and> ut0 \<le> ut \<and> lw \<le> lw0 \<and> uw0 \<le> uw
       \<and> (\<forall>h \<in> set hs. lw \<le> GlobalWire h \<and> GlobalWire h \<le> uw
              \<and> lt \<le> to_int (PeakTime h) \<and> to_int (PeakTime h) \<le> ut)"
  using assms
proof (induction hs arbitrary: lt0 ut0 lw0 uw0)
  case Nil
  then show ?case by simp
next
  case (Cons h hs)
  let ?lt1 = "if PeakTime h < of_int lt0 then to_int (PeakTime h) else lt0"
  let ?ut1 = "if PeakTime h > of_int ut0 then to_int (PeakTime h) else ut0"
  let ?lw1 = "if GlobalWire h < lw0 then GlobalWire h else lw0"
  let ?uw1 = "if GlobalWire h > uw0 then GlobalWire h else uw0"
  from Cons.prems have run: "scan_bounds hs (?lt1, ?ut1, ?lw1, ?uw1) = (lt, ut, lw, uw)"
    by (simp add: Let_def)
  from Cons.IH[OF run] have
    IH: "lt \<le> ?lt1" "?ut1 \<le> ut" "lw \<le> ?lw1" "?uw1 \<le> uw"
      "\<forall>h \<in> set hs. lw \<le> GlobalWire h \<and> GlobalWire h \<le> uw
              \<and> lt \<le> to_int (PeakTime h) \<and> to_int (PeakTime h) \<le> ut"
    by auto
  have lo: "?lt1 \<le> lt0 \<and> ?lt1 \<le> to_int (PeakTime h)"
  proof (cases "PeakTime h < of_int lt0")
    case True
    then have "to_int (PeakTime h) \<le> to_int (of_int lt0)" by (intro to_int_mono) simp
    with True show ?thesis by (simp add: to_int_of_int)
  next
    case False
    then have "to_int (of_int lt0) \<le> to_int (PeakTime h)" by (intro to_int_mono) simp
    with False show ?thesis by (simp add: to_int_of_int)
  qed
  have hi: "ut0 \<le> ?ut1 \<and> to_int (PeakTime h) \<le> ?ut1"
  proof (cases "PeakTime h > of_int ut0")
    case True
    then have "to_int (of_int ut0) \<le> to_int (PeakTime h)" by (intro to_int_mono) simp
    with True show ?thesis by (simp add: to_int_of_int)
  next
    case False
    then have "to_int (PeakTime h) \<le> to_int (of_int ut0)" by (intro to_int_mono) simp
    with False show ?thesis by (simp add: to_int_of_int)
  qed
  have w: "?lw1 \<le> lw0 \<and> ?lw1 \<le> GlobalWire h \<and> uw0 \<le> ?uw1 \<and> GlobalWire h \<le> ?uw1" by simp
  from IH lo hi w show ?case by (simp del: scan_bounds.simps)
qed

text \<open>For a non-empty input the image is allocated, every hit has its cell, and each cell of
  a hit ends as the second loop leaves it.\<close>

lemma ImageBuilder_cells:
  assumes "hits \<noteq> []"
  shows "\<exists>st img wid.
           ConvertRecobHitsToVector det hits = Inr (st, img, wid)
         \<and> (\<forall>h \<in> set hits. \<exists>v w.
               at2 img (GlobalWire h - fLowerHistWire st) (to_int (PeakTime h) - fLowerHistTick st) = Inr v
             \<and> at2 wid (GlobalWire h - fLowerHistWire st) (to_int (PeakTime h) - fLowerHistTick st) = Inr w
             \<and> (v, w, map_of (fHitMap st) (hit_cell h)) = cell_after (hit_cell h) hits (0, 0, None))"
proof -
  obtain lt ut lw uw where
    sb: "scan_bounds hits (int (ReadOutWindowSize det), 0, int (MaxWires det), 0) = (lt, ut, lw, uw)"
    by (metis prod_cases4)
  from scan_bounds_covers[OF sb] have
    cov: "\<forall>h \<in> set hits. lw \<le> GlobalWire h \<and> GlobalWire h \<le> uw
              \<and> lt \<le> to_int (PeakTime h) \<and> to_int (PeakTime h) \<le> ut" by simp
  from assms obtain h0 where "h0 \<in> set hits" by (cases hits) auto
  with cov have ord: "lw \<le> uw" "lt \<le> ut" by force+
  let ?lw = "lw - 20" and ?lt = "lt - 20"
  let ?n = "nat (uw + 20 - ?lw)" and ?m = "nat (ut + 20 - ?lt)"
  let ?z = "replicate ?n (replicate ?m (0::real))"
  have ni: "new_image (uw + 20 - ?lw) (ut + 20 - ?lt) = Inr ?z" using ord by (simp add: new_image_def)
  have rz: "rect ?n ?m ?z" by (rule rect_replicate)
  have rng: "\<And>h. h \<in> set hits \<Longrightarrow> 0 \<le> GlobalWire h - ?lw \<and> GlobalWire h - ?lw < int ?n
                \<and> 0 \<le> to_int (PeakTime h) - ?lt \<and> to_int (PeakTime h) - ?lt < int ?m"
    using cov by force
  from fill_hits_total[OF rz rz rng, of hits "[]"] obtain img wid hm where
    fh: "fill_hits ?lw ?lt hits (?z, ?z, []) = Inr (img, wid, hm)" by (metis prod_cases3)
  let ?st = "\<lparr>fLowerHistTick = ?lt, fUpperHistTick = ut + 20, fLowerHistWire = ?lw,
              fUpperHistWire = uw + 20, fHitMap = hm\<rparr>"
  have res: "ConvertRecobHitsToVector det hits = Inr (?st, img, wid)"
    using sb ni fh by (simp add: ConvertRecobHitsToVector_def Let_def)
  from fill_hits_cell[OF fh rz rz] have
    r: "rect ?n ?m img" "rect ?n ?m wid"
    and cells: "\<forall>i j. 0 \<le> i \<and> i < int ?n \<and> 0 \<le> j \<and> j < int ?m \<longrightarrow>
             (img ! nat i ! nat j, wid ! nat i ! nat j, map_of hm (i + ?lw, j + ?lt))
               = cell_after (i + ?lw, j + ?lt) hits
                   (?z ! nat i ! nat j, ?z ! nat i ! nat j, map_of [] (i + ?lw, j + ?lt))"
    by auto
  have "\<forall>h \<in> set hits. \<exists>v w.
               at2 img (GlobalWire h - fLowerHistWire ?st) (to_int (PeakTime h) - fLowerHistTick ?st) = Inr v
             \<and> at2 wid (GlobalWire h - fLowerHistWire ?st) (to_int (PeakTime h) - fLowerHistTick ?st) = Inr w
             \<and> (v, w, map_of (fHitMap ?st) (hit_cell h)) = cell_after (hit_cell h) hits (0, 0, None)"
  proof
    fix h assume h: "h \<in> set hits"
    let ?i = "GlobalWire h - ?lw" and ?j = "to_int (PeakTime h) - ?lt"
    from rng[OF h] have ij: "0 \<le> ?i \<and> ?i < int ?n \<and> 0 \<le> ?j \<and> ?j < int ?m" .
    then have "nat ?i < ?n" "nat ?j < ?m" by linarith+
    then have z: "?z ! nat ?i ! nat ?j = 0" by (simp only: nth_replicate)
    from cells ij have
      "(img ! nat ?i ! nat ?j, wid ! nat ?i ! nat ?j, map_of hm (?i + ?lw, ?j + ?lt))
          = cell_after (?i + ?lw, ?j + ?lt) hits
                   (?z ! nat ?i ! nat ?j, ?z ! nat ?i ! nat ?j, map_of [] (?i + ?lw, ?j + ?lt))"
      by blast
    then have c: "(img ! nat ?i ! nat ?j, wid ! nat ?i ! nat ?j, map_of hm (hit_cell h))
          = cell_after (hit_cell h) hits (0, 0, None)"
      unfolding z by (simp add: hit_cell_def)
    have a1: "at2 img ?i ?j = Inr (img ! nat ?i ! nat ?j)" using ij by (simp add: at2_rect[OF r(1)])
    have a2: "at2 wid ?i ?j = Inr (wid ! nat ?i ! nat ?j)" using ij by (simp add: at2_rect[OF r(2)])
    from a1 a2 c show "\<exists>v w.
               at2 img (GlobalWire h - fLowerHistWire ?st) (to_int (PeakTime h) - fLowerHistTick ?st) = Inr v
             \<and> at2 wid (GlobalWire h - fLowerHistWire ?st) (to_int (PeakTime h) - fLowerHistTick ?st) = Inr w
             \<and> (v, w, map_of (fHitMap ?st) (hit_cell h)) = cell_after (hit_cell h) hits (0, 0, None)"
      by simp
  qed
  with res show ?thesis by blast
qed

text \<open>What the loop leaves in a cell: the start, or a hit of the cell that exceeded it; no
  hit of the cell exceeds the result.\<close>

lemma cell_after_bound:
  "cell_after c hs (v, w, oc) = (v', w', oc') \<Longrightarrow>
     v \<le> v' \<and> (\<forall>h \<in> set hs. hit_cell h = c \<longrightarrow> Integral h \<le> v')
     \<and> ((v', w', oc') = (v, w, oc)
          \<or> (\<exists>h \<in> set hs. hit_cell h = c \<and> v < Integral h
                \<and> v' = Integral h \<and> w' = RMS h \<and> oc' = Some h))"
proof (induction hs arbitrary: v w oc)
  case Nil
  then show ?case by simp
next
  case (Cons h hs)
  show ?case
  proof (cases "hit_cell h = c \<and> Integral h > v")
    case True
    with Cons.prems have "cell_after c hs (Integral h, RMS h, Some h) = (v', w', oc')" by simp
    from Cons.IH[OF this] True show ?thesis by force
  next
    case False
    with Cons.prems have "cell_after c hs (v, w, oc) = (v', w', oc')" by auto
    from Cons.IH[OF this] False show ?thesis by force
  qed
qed

text \<open>More precisely: the first hit of the cell that reaches the largest charge of the cell,
  when that charge exceeds the start.\<close>

lemma cell_after_first_max:
  assumes "cell_after c hs (v0, w0, o0) = (v, w, oc)"
  shows "if \<exists>h \<in> set hs. hit_cell h = c \<and> v0 < Integral h
         then \<exists>i < length hs.
                hit_cell (hs ! i) = c \<and> v0 < v
              \<and> v = Integral (hs ! i) \<and> w = RMS (hs ! i) \<and> oc = Some (hs ! i)
              \<and> (\<forall>j < length hs. hit_cell (hs ! j) = c \<longrightarrow> Integral (hs ! j) \<le> v)
              \<and> (\<forall>j < i. hit_cell (hs ! j) = c \<longrightarrow> Integral (hs ! j) < v)
         else (v, w, oc) = (v0, w0, o0)"
  using assms
proof (induction hs arbitrary: v0 w0 o0)
  case Nil
  then show ?case by simp
next
  case (Cons h hs)
  let ?P = "\<lambda>hs v0 i.
                hit_cell (hs ! i) = c \<and> v0 < v
              \<and> v = Integral (hs ! i) \<and> w = RMS (hs ! i) \<and> oc = Some (hs ! i)
              \<and> (\<forall>j < length hs. hit_cell (hs ! j) = c \<longrightarrow> Integral (hs ! j) \<le> v)
              \<and> (\<forall>j < i. hit_cell (hs ! j) = c \<longrightarrow> Integral (hs ! j) < v)"
  show ?case
  proof (cases "hit_cell h = c \<and> Integral h > v0")
    case True
    with Cons.prems have run: "cell_after c hs (Integral h, RMS h, Some h) = (v, w, oc)" by simp
    have ex: "\<exists>h' \<in> set (h # hs). hit_cell h' = c \<and> v0 < Integral h'" using True by auto
    have "\<exists>i < length (h # hs). ?P (h # hs) v0 i"
    proof (cases "\<exists>h' \<in> set hs. hit_cell h' = c \<and> Integral h < Integral h'")
      case True': True
      with Cons.IH[OF run] obtain i where i: "i < length hs" "?P hs (Integral h) i" by auto
      have p: "?P (h # hs) v0 (Suc i)"
      proof -
        have a: "\<forall>j < length (h # hs). hit_cell ((h # hs) ! j) = c \<longrightarrow> Integral ((h # hs) ! j) \<le> v"
        proof (intro allI impI)
          fix j assume "j < length (h # hs)" "hit_cell ((h # hs) ! j) = c"
          then show "Integral ((h # hs) ! j) \<le> v" using i(2) by (cases j) auto
        qed
        have b: "\<forall>j < Suc i. hit_cell ((h # hs) ! j) = c \<longrightarrow> Integral ((h # hs) ! j) < v"
        proof (intro allI impI)
          fix j assume "j < Suc i" "hit_cell ((h # hs) ! j) = c"
          then show "Integral ((h # hs) ! j) < v" using i(2) by (cases j) auto
        qed
        from i(2) True a b show ?thesis by auto
      qed
      have l: "Suc i < length (h # hs)" using i(1) by simp
      from l p show ?thesis by blast
    next
      case False
      with Cons.IH[OF run] have e: "(v, w, oc) = (Integral h, RMS h, Some h)" by auto
      have p: "?P (h # hs) v0 0"
      proof -
        have a: "\<forall>j < length (h # hs). hit_cell ((h # hs) ! j) = c \<longrightarrow> Integral ((h # hs) ! j) \<le> v"
        proof (intro allI impI)
          fix j assume j: "j < length (h # hs)" "hit_cell ((h # hs) ! j) = c"
          show "Integral ((h # hs) ! j) \<le> v"
          proof (cases j)
            case 0
            then show ?thesis using e by simp
          next
            case (Suc k)
            with j have "hs ! k \<in> set hs" "hit_cell (hs ! k) = c" by auto
            with False have "\<not> Integral h < Integral (hs ! k)" by blast
            then show ?thesis using e Suc by simp
          qed
        qed
        from e True a show ?thesis by auto
      qed
      have l: "0 < length (h # hs)" by simp
      from l p show ?thesis by blast
    qed
    with ex show ?thesis by (simp only: if_True)
  next
    case False
    with Cons.prems have run: "cell_after c hs (v0, w0, o0) = (v, w, oc)" by auto
    show ?thesis
    proof (cases "\<exists>h' \<in> set hs. hit_cell h' = c \<and> v0 < Integral h'")
      case True
      with Cons.IH[OF run] obtain i where i: "i < length hs" "?P hs v0 i" by auto
      have p: "?P (h # hs) v0 (Suc i)"
      proof -
        have h0: "hit_cell h = c \<longrightarrow> Integral h < v" using False i(2) by auto
        have a: "\<forall>j < length (h # hs). hit_cell ((h # hs) ! j) = c \<longrightarrow> Integral ((h # hs) ! j) \<le> v"
        proof (intro allI impI)
          fix j assume "j < length (h # hs)" "hit_cell ((h # hs) ! j) = c"
          then show "Integral ((h # hs) ! j) \<le> v" using i(2) h0 by (cases j) auto
        qed
        have b: "\<forall>j < Suc i. hit_cell ((h # hs) ! j) = c \<longrightarrow> Integral ((h # hs) ! j) < v"
        proof (intro allI impI)
          fix j assume "j < Suc i" "hit_cell ((h # hs) ! j) = c"
          then show "Integral ((h # hs) ! j) < v" using i(2) h0 by (cases j) auto
        qed
        from i(2) a b show ?thesis by auto
      qed
      have l: "Suc i < length (h # hs)" using i(1) by simp
      from l p have "\<exists>i < length (h # hs). ?P (h # hs) v0 i" by blast
      moreover have "\<exists>h' \<in> set (h # hs). hit_cell h' = c \<and> v0 < Integral h'" using True by auto
      ultimately show ?thesis by (simp only: if_True)
    next
      case False': False
      with Cons.IH[OF run] have e: "(v, w, oc) = (v0, w0, o0)" by auto
      have "\<not> (\<exists>h' \<in> set (h # hs). hit_cell h' = c \<and> v0 < Integral h')"
        using False False' by auto
      with e show ?thesis by (simp only: if_False)
    qed
  qed
qed

section \<open>Properties of the kernel factory and of the kernel search\<close>

lemma set_kernel_offsets:
  "set (kernel_offsets bw bt ks) = {(i, j). - bw \<le> i \<and> i \<le> bw \<and> - (bt * ks) \<le> j \<and> j \<le> bt * ks}"
  by (auto simp: kernel_offsets_def)

lemma foldE_put_at:
  assumes "\<And>x. x \<in> set xs \<Longrightarrow> 0 \<le> kf x \<and> kf x < int (length k0)"
  shows "\<exists>k. foldE (\<lambda>x k. put_at k (kf x) (val x)) xs k0 = Inr k \<and> length k = length k0
           \<and> (\<forall>n < length k0. (\<exists>x \<in> set xs. kf x = int n \<and> k ! n = val x)
                 \<or> ((\<forall>x \<in> set xs. kf x \<noteq> int n) \<and> k ! n = k0 ! n))"
  using assms
proof (induction xs arbitrary: k0)
  case Nil
  then show ?case by simp
next
  case (Cons x xs)
  let ?k1 = "k0[nat (kf x) := val x]"
  have inr: "0 \<le> kf x \<and> kf x < int (length k0)" using Cons.prems by simp
  have step: "put_at k0 (kf x) (val x) = Inr ?k1" using inr by (simp add: put_at_def)
  have "\<And>y. y \<in> set xs \<Longrightarrow> 0 \<le> kf y \<and> kf y < int (length ?k1)" using Cons.prems by simp
  from Cons.IH[OF this] obtain k where
    run: "foldE (\<lambda>x k. put_at k (kf x) (val x)) xs ?k1 = Inr k" and len: "length k = length ?k1"
    and cont: "\<forall>n < length ?k1. (\<exists>y \<in> set xs. kf y = int n \<and> k ! n = val y)
                 \<or> ((\<forall>y \<in> set xs. kf y \<noteq> int n) \<and> k ! n = ?k1 ! n)"
    by blast
  have "foldE (\<lambda>x k. put_at k (kf x) (val x)) (x # xs) k0 = Inr k" using step run by simp
  moreover have "length k = length k0" using len by simp
  moreover have "\<forall>n < length k0. (\<exists>y \<in> set (x # xs). kf y = int n \<and> k ! n = val y)
                 \<or> ((\<forall>y \<in> set (x # xs). kf y \<noteq> int n) \<and> k ! n = k0 ! n)"
  proof (intro allI impI)
    fix n assume n: "n < length k0"
    with cont have c: "(\<exists>y \<in> set xs. kf y = int n \<and> k ! n = val y)
                 \<or> ((\<forall>y \<in> set xs. kf y \<noteq> int n) \<and> k ! n = ?k1 ! n)" by simp
    show "(\<exists>y \<in> set (x # xs). kf y = int n \<and> k ! n = val y)
                 \<or> ((\<forall>y \<in> set (x # xs). kf y \<noteq> int n) \<and> k ! n = k0 ! n)"
    proof (cases "kf x = int n")
      case True
      then have "?k1 ! n = val x" using n by simp
      with c True show ?thesis by auto
    next
      case False
      then have "nat (kf x) \<noteq> n" using inr by auto
      then have "?k1 ! n = k0 ! n" by simp
      with c False show ?thesis by auto
    qed
  qed
  ultimately show ?case by blast
qed

lemma kernel_key_inj:
  assumes "0 \<le> bw" "- bw \<le> i" "i \<le> bw" "- bw \<le> i'" "i' \<le> bw"
    and "kernel_key (2 * bw + 1) bw bt ks (i, j) = kernel_key (2 * bw + 1) bw bt ks (i', j')"
  shows "i = i' \<and> j = j'"
proof -
  let ?kw = "2 * bw + 1"
  have e: "?kw * (j + bt * ks) + (i + bw) = ?kw * (j' + bt * ks) + (i' + bw)"
    using assms(6) by (simp add: kernel_key_def)
  have "(?kw * (j + bt * ks) + (i + bw)) mod ?kw = i + bw" using assms by simp
  moreover have "(?kw * (j' + bt * ks) + (i' + bw)) mod ?kw = i' + bw" using assms by simp
  ultimately have i: "i = i'" using e by simp
  with e have "?kw * (j + bt * ks) = ?kw * (j' + bt * ks)" by simp
  then have "j = j'" using assms(1) by simp
  with i show ?thesis by simp
qed

lemma kernel_key_range:
  assumes "0 \<le> bw" "0 \<le> bt * ks" "- bw \<le> i" "i \<le> bw" "- (bt * ks) \<le> j" "j \<le> bt * ks"
  shows "0 \<le> kernel_key (2 * bw + 1) bw bt ks (i, j)
       \<and> kernel_key (2 * bw + 1) bw bt ks (i, j) < (2 * bw + 1) * (2 * bt * ks + 1)"
proof -
  let ?kw = "2 * bw + 1"
  let ?J = "j + bt * ks"
  have J: "0 \<le> ?J" "?J \<le> 2 * (bt * ks)" using assms by auto
  have u: "0 \<le> i + bw" "i + bw < ?kw" using assms by auto
  have "0 \<le> ?kw * ?J" using J assms(1) by simp
  then have lo: "0 \<le> ?kw * ?J + (i + bw)" using u by linarith
  have "?kw * ?J \<le> ?kw * (2 * (bt * ks))" using J assms(1) by (simp add: mult_left_mono)
  then have "?kw * ?J + (i + bw) < ?kw * (2 * (bt * ks)) + ?kw" using u by linarith
  also have "\<dots> = ?kw * (2 * bt * ks + 1)" by (simp add: algebra_simps)
  finally show ?thesis using lo by (simp add: kernel_key_def)
qed

lemma make_kernel_ok:
  assumes "0 \<le> bw" "0 \<le> bt * ks"
  shows "\<exists>k. make_kernel bw bt ks sw st t = Inr k
           \<and> int (length k) = (2 * bw + 1) * (2 * bt * ks + 1)
           \<and> (\<forall>i j. - bw \<le> i \<and> i \<le> bw \<and> - (bt * ks) \<le> j \<and> j \<le> bt * ks \<longrightarrow>
                 k ! nat (kernel_key (2 * bw + 1) bw bt ks (i, j)) = kernel_value sw (st * t) i j)"
proof -
  let ?kw = "2 * bw + 1"
  let ?n = "?kw * (2 * bt * ks + 1)"
  let ?k0 = "replicate (nat ?n) (0::real)"
  let ?key = "kernel_key ?kw bw bt ks"
  let ?val = "\<lambda>ij. kernel_value sw (st * t) (fst ij) (snd ij)"
  have n0: "0 \<le> ?n" using assms by simp
  have nv: "new_vector ?n = Inr ?k0" using n0 by (simp add: new_vector_def)
  have rng: "\<And>x. x \<in> set (kernel_offsets bw bt ks) \<Longrightarrow> 0 \<le> ?key x \<and> ?key x < int (length ?k0)"
  proof -
    fix x assume "x \<in> set (kernel_offsets bw bt ks)"
    then obtain i j where x: "x = (i, j)" and ij: "- bw \<le> i" "i \<le> bw" "- (bt * ks) \<le> j" "j \<le> bt * ks"
      by (auto simp: set_kernel_offsets)
    from kernel_key_range[OF assms ij] n0 show "0 \<le> ?key x \<and> ?key x < int (length ?k0)"
      by (simp add: x)
  qed
  from foldE_put_at[where xs = "kernel_offsets bw bt ks" and kf = ?key and ?k0.0 = ?k0 and val = ?val, OF rng] obtain k where
    run: "foldE (\<lambda>x k. put_at k (?key x) (?val x)) (kernel_offsets bw bt ks) ?k0 = Inr k"
    and len: "length k = length ?k0"
    and cont: "\<forall>n < length ?k0. (\<exists>x \<in> set (kernel_offsets bw bt ks). ?key x = int n \<and> k ! n = ?val x)
                 \<or> ((\<forall>x \<in> set (kernel_offsets bw bt ks). ?key x \<noteq> int n) \<and> k ! n = ?k0 ! n)"
    by blast
  have mk: "make_kernel bw bt ks sw st t = Inr k"
    using nv run by (simp add: make_kernel_def Let_def)
  have length: "int (length k) = ?n" using len n0 by simp
  have content: "\<forall>i j. - bw \<le> i \<and> i \<le> bw \<and> - (bt * ks) \<le> j \<and> j \<le> bt * ks \<longrightarrow>
                 k ! nat (?key (i, j)) = kernel_value sw (st * t) i j"
  proof (intro allI impI)
    fix i j assume ij: "- bw \<le> i \<and> i \<le> bw \<and> - (bt * ks) \<le> j \<and> j \<le> bt * ks"
    then have mem: "(i, j) \<in> set (kernel_offsets bw bt ks)" by (simp add: set_kernel_offsets)
    from rng[OF mem] n0 have r: "0 \<le> ?key (i, j)" "nat (?key (i, j)) < length ?k0"
      by (simp_all add: nat_less_iff)
    from cont r mem obtain x where x: "x \<in> set (kernel_offsets bw bt ks)"
      and kx: "?key x = ?key (i, j)" and v: "k ! nat (?key (i, j)) = ?val x"
      by (metis int_nat_eq)
    obtain i' j' where x': "x = (i', j')" by (cases x)
    with x have ij': "- bw \<le> i'" "i' \<le> bw" by (auto simp: set_kernel_offsets)
    from kernel_key_inj[OF assms(1) ij' _ _ kx[unfolded x']] ij have "i' = i \<and> j' = j" by simp
    with v x' show "k ! nat (?key (i, j)) = kernel_value sw (st * t) i j" by simp
  qed
  from mk length content show ?thesis by blast
qed

lemma foldE_kernels:
  assumes "\<And>t. t \<in> set ts \<Longrightarrow> \<exists>k. mk t = Inr k"
  shows "\<exists>m. foldE (\<lambda>t allKernels. case mk t of Inl e \<Rightarrow> Inl e
                                      | Inr kern \<Rightarrow> Inr (allKernels(t \<mapsto> kern))) ts m0 = Inr m
           \<and> (\<forall>t \<in> set ts. mk t = Inr (the (m t)) \<and> m t \<noteq> None)
           \<and> (\<forall>t. t \<notin> set ts \<longrightarrow> m t = m0 t)"
  using assms
proof (induction ts arbitrary: m0)
  case Nil
  then show ?case by simp
next
  case (Cons t0 ts)
  from Cons.prems obtain k0 where k0: "mk t0 = Inr k0" by auto
  have "\<And>t. t \<in> set ts \<Longrightarrow> \<exists>k. mk t = Inr k" using Cons.prems by simp
  from Cons.IH[OF this, of "m0(t0 \<mapsto> k0)"] obtain m where
    run: "foldE (\<lambda>t allKernels. case mk t of Inl e \<Rightarrow> Inl e
                                      | Inr kern \<Rightarrow> Inr (allKernels(t \<mapsto> kern))) ts (m0(t0 \<mapsto> k0)) = Inr m"
    and inl: "\<forall>t \<in> set ts. mk t = Inr (the (m t)) \<and> m t \<noteq> None"
    and out: "\<forall>t. t \<notin> set ts \<longrightarrow> m t = (m0(t0 \<mapsto> k0)) t"
    by blast
  have "foldE (\<lambda>t allKernels. case mk t of Inl e \<Rightarrow> Inl e
                                      | Inr kern \<Rightarrow> Inr (allKernels(t \<mapsto> kern))) (t0 # ts) m0 = Inr m"
    using k0 run by simp
  moreover have "\<forall>t \<in> set (t0 # ts). mk t = Inr (the (m t)) \<and> m t \<noteq> None"
  proof
    fix t assume t: "t \<in> set (t0 # ts)"
    show "mk t = Inr (the (m t)) \<and> m t \<noteq> None"
    proof (cases "t \<in> set ts")
      case True
      with inl show ?thesis by simp
    next
      case False
      with t have "t = t0" by simp
      with False out k0 show ?thesis by simp
    qed
  qed
  moreover have "\<forall>t. t \<notin> set (t0 # ts) \<longrightarrow> m t = m0 t" using out by simp
  ultimately show ?case by blast
qed

lemma make_kernels_ok:
  assumes "0 \<le> bw" "0 \<le> bt * (fMaxTickWidthScale cfg + 1)"
  shows "\<exists>m. make_kernels cfg bw bt sw st = Inr m
           \<and> (\<forall>t \<in> set (fKernels cfg).
                 make_kernel bw bt (fMaxTickWidthScale cfg + 1) sw st t = Inr (the (m t)) \<and> m t \<noteq> None)
           \<and> (\<forall>t. t \<notin> set (fKernels cfg) \<longrightarrow> m t = None)"
proof -
  have "\<And>t. t \<in> set (fKernels cfg) \<Longrightarrow>
          \<exists>k. make_kernel bw bt (fMaxTickWidthScale cfg + 1) sw st t = Inr k"
    using make_kernel_ok[OF assms] by blast
  from foldE_kernels[where mk = "make_kernel bw bt (fMaxTickWidthScale cfg + 1) sw st"
        and ts = "fKernels cfg" and ?m0.0 = Map.empty, OF this]
  show ?thesis by (simp add: make_kernels_def Let_def)
qed

lemma find_kernel_finds:
  assumes "t \<in> set ks" "t \<le> k" "- 2147483648 \<le> t"
    and "\<And>t'. t' \<in> set ks \<Longrightarrow> \<exists>ker. kernels t' = Some ker \<and> ker \<noteq> []"
  shows "\<exists>t' ker. find_kernel ks kernels k = Inr ker \<and> t' \<in> set ks \<and> t \<le> t' \<and> t' \<le> k
           \<and> kernels t' = Some ker \<and> (\<forall>u \<in> set ks. u \<le> k \<longrightarrow> u \<le> t')"
  using assms
proof (induction ks kernels k rule: find_kernel.induct)
  case (1 ks kernels k)
  have lo: "\<not> k < - 2147483648" using "1.prems" by simp
  show ?case
  proof (cases "k \<in> set ks")
    case True
    from "1.prems"(4)[OF True] obtain ker where ker: "kernels k = Some ker" "ker \<noteq> []" by blast
    have "find_kernel ks kernels k = Inr ker"
      using lo True ker by (subst find_kernel.simps) simp
    with True ker "1.prems"(2) show ?thesis by blast
  next
    case False
    with "1.prems" have tk: "t \<le> k - 1" by (cases "t = k") auto
    from "1.IH"(2)[OF lo False "1.prems"(1) tk "1.prems"(3) "1.prems"(4)]
    obtain t' ker where r: "find_kernel ks kernels (k - 1) = Inr ker" "t' \<in> set ks" "t \<le> t'"
      "t' \<le> k - 1" "kernels t' = Some ker" "\<forall>u \<in> set ks. u \<le> k - 1 \<longrightarrow> u \<le> t'"
      by blast
    have "find_kernel ks kernels k = Inr ker"
      using lo False r(1) by (subst find_kernel.simps) simp
    moreover have "\<forall>u \<in> set ks. u \<le> k \<longrightarrow> u \<le> t'"
    proof (intro ballI impI)
      fix u assume "u \<in> set ks" "u \<le> k"
      with False have "u \<le> k - 1" by (cases "u = k") auto
      with r(6) \<open>u \<in> set ks\<close> show "u \<le> t'" by simp
    qed
    ultimately show ?thesis using r by force
  qed
qed

lemma kernel_value_gauss:
  "kernel_value sw s i j =
     exp (- (of_int i)\<^sup>2 / (2 * (of_int sw)\<^sup>2)) / sqrt (2 * pi * (of_int sw)\<^sup>2)
       * (exp (- (of_int j)\<^sup>2 / (2 * (of_int s)\<^sup>2)) / sqrt (2 * pi * (of_int s)\<^sup>2))"
  by (simp add: kernel_value_def Let_def power2_eq_square mult.assoc mult.left_commute mult.commute)

lemma kernels_content:
  assumes "0 \<le> blurwire" and "0 \<le> blurtick * (fMaxTickWidthScale cfg + 1)"
    and "t \<in> set (fKernels cfg)"
  shows "\<exists>allKernels k.
           make_kernels cfg blurwire blurtick sigmawire sigmatick = Inr allKernels
         \<and> allKernels t = Some k
         \<and> int (length k) = (2 * blurwire + 1) * (2 * blurtick * (fMaxTickWidthScale cfg + 1) + 1)
         \<and> (\<forall>i j. - blurwire \<le> i \<and> i \<le> blurwire
                   \<and> - (blurtick * (fMaxTickWidthScale cfg + 1)) \<le> j
                   \<and> j \<le> blurtick * (fMaxTickWidthScale cfg + 1) \<longrightarrow>
                 k ! nat ((2 * blurwire + 1) * (j + blurtick * (fMaxTickWidthScale cfg + 1)) + (i + blurwire))
                   = kernel_value sigmawire (sigmatick * t) i j)"
proof -
  let ?ks = "fMaxTickWidthScale cfg + 1"
  from make_kernels_ok[where sw = sigmawire and st = sigmatick, OF assms(1,2)] obtain m where
    m: "make_kernels cfg blurwire blurtick sigmawire sigmatick = Inr m"
    and inl: "\<forall>t \<in> set (fKernels cfg).
                 make_kernel blurwire blurtick ?ks sigmawire sigmatick t = Inr (the (m t)) \<and> m t \<noteq> None"
    by blast
  from inl assms(3) obtain k where k: "m t = Some k"
    "make_kernel blurwire blurtick ?ks sigmawire sigmatick t = Inr k" by fastforce
  from make_kernel_ok[where sw = sigmawire and st = sigmatick and t = t, OF assms(1,2)] k(2)
  have "int (length k) = (2 * blurwire + 1) * (2 * blurtick * ?ks + 1)
      \<and> (\<forall>i j. - blurwire \<le> i \<and> i \<le> blurwire \<and> - (blurtick * ?ks) \<le> j \<and> j \<le> blurtick * ?ks \<longrightarrow>
            k ! nat (kernel_key (2 * blurwire + 1) blurwire blurtick ?ks (i, j))
              = kernel_value sigmawire (sigmatick * t) i j)"
    by auto
  with m k(1) show ?thesis unfolding kernel_key_def by auto
qed

text \<open>Kernels that have been built are not empty, and the clamp by cases.\<close>

lemma foldE_kernels_built:
  assumes "foldE (\<lambda>t allKernels. case mk t of Inl e \<Rightarrow> Inl e
                                      | Inr kern \<Rightarrow> Inr (allKernels(t \<mapsto> kern))) ts m0 = Inr m"
  shows "\<forall>t \<in> set ts. \<exists>k. mk t = Inr k \<and> m t = Some k"
  using assms
proof (induction ts arbitrary: m0)
  case Nil
  then show ?case by simp
next
  case (Cons t0 ts)
  from Cons.prems obtain k0 where k0: "mk t0 = Inr k0"
    and run: "foldE (\<lambda>t allKernels. case mk t of Inl e \<Rightarrow> Inl e
                                      | Inr kern \<Rightarrow> Inr (allKernels(t \<mapsto> kern))) ts (m0(t0 \<mapsto> k0)) = Inr m"
    by (auto split: sum.splits)
  from Cons.IH[OF run] have ih: "\<forall>t \<in> set ts. \<exists>k. mk t = Inr k \<and> m t = Some k" .
  have out: "m t0 = Some k0" if "t0 \<notin> set ts"
  proof -
    have "\<And>t. t \<in> set ts \<Longrightarrow> \<exists>k. mk t = Inr k" using ih by blast
    from foldE_kernels[where mk = mk and ts = ts and ?m0.0 = "m0(t0 \<mapsto> k0)", OF this] run that
    show ?thesis by auto
  qed
  show ?case
  proof
    fix t assume "t \<in> set (t0 # ts)"
    then show "\<exists>k. mk t = Inr k \<and> m t = Some k"
      using ih k0 out by (cases "t \<in> set ts") auto
  qed
qed

lemma foldE_put_at_length:
  assumes "foldE (\<lambda>x k. put_at k (kf x) (val x)) xs k0 = Inr k"
  shows "length k = length k0"
proof (rule foldE_invariant[where P = "\<lambda>k. length k = length k0", OF _ assms])
  fix x s s' assume "put_at s (kf x) (val x) = Inr s'" and "length s = length k0"
  then show "length s' = length k0" by (auto simp: put_at_def split: if_splits)
qed simp

lemma make_kernel_nonempty:
  assumes "make_kernel bw bt ks sw st t = Inr k"
  shows "k \<noteq> []"
proof -
  let ?n = "(2 * bw + 1) * (2 * bt * ks + 1)"
  from assms obtain k0 where nv: "new_vector ?n = Inr k0"
    and run: "foldE (\<lambda>ij kern. put_at kern (kernel_key (2 * bw + 1) bw bt ks ij)
                        (kernel_value sw (st * t) (fst ij) (snd ij)))
                   (kernel_offsets bw bt ks) k0 = Inr k"
    by (auto simp: make_kernel_def Let_def split: sum.splits)
  from nv have n: "0 \<le> ?n" and k0: "k0 = replicate (nat ?n) 0"
    by (auto simp: new_vector_def split: if_splits)
  have odd: "2 * x + 1 \<noteq> 0" for x :: int by presburger
  have "2 * bw + 1 \<noteq> 0" by (rule odd)
  moreover have "2 * bt * ks + 1 \<noteq> 0" using odd[of "bt * ks"] by (simp add: mult.assoc)
  ultimately have "?n \<noteq> 0" by (simp only: mult_eq_0_iff de_Morgan_disj simp_thms)
  with n have "0 < ?n" by linarith
  then have "k0 \<noteq> []" using k0 by simp
  with foldE_put_at_length[OF run] show ?thesis by auto
qed

lemma make_kernels_nonempty:
  assumes "make_kernels cfg bw bt sw st = Inr m" and "t \<in> set (fKernels cfg)"
  shows "\<exists>k. m t = Some k \<and> k \<noteq> []"
proof -
  from assms(1) have "foldE (\<lambda>t allKernels.
               case make_kernel bw bt (fMaxTickWidthScale cfg + 1) sw st t of
                 Inl e \<Rightarrow> Inl e
               | Inr kern \<Rightarrow> Inr (allKernels(t \<mapsto> kern)))
            (fKernels cfg) Map.empty = Inr m"
    by (simp add: make_kernels_def Let_def)
  from foldE_kernels_built[OF this] assms(2) obtain k where
    "make_kernel bw bt (fMaxTickWidthScale cfg + 1) sw st t = Inr k" "m t = Some k" by blast
  with make_kernel_nonempty show ?thesis by blast
qed

lemma clamp_tick_scale_cases:
  "clamp_tick_scale cfg c =
     (if c < 1 \<or> fMaxTickWidthScale cfg < 1 then 1
      else if fMaxTickWidthScale cfg < c then fMaxTickWidthScale cfg else c)"
  by (simp add: clamp_tick_scale_def)

section \<open>Properties of the blur-parameter estimate\<close>

lemma sum_list_shifted_squares:
  fixes xs :: "real list"
  shows "(\<Sum>x\<leftarrow>xs. (x - m)\<^sup>2) = (\<Sum>x\<leftarrow>xs. x * x) - 2 * m * sum_list xs + real (length xs) * m\<^sup>2"
  by (induction xs) (simp_all add: power2_eq_square algebra_simps)

lemma sum_list_constant:
  fixes xs :: "real list"
  assumes "\<And>x. x \<in> set xs \<Longrightarrow> x = c"
  shows "sum_list xs = real (length xs) * c \<and> (\<Sum>x\<leftarrow>xs. x * x) = real (length xs) * (c * c)"
  using assms by (induction xs) (auto simp: algebra_simps)

lemma divisor_zero_iff:
  fixes xs :: "real list"
  shows "real (length xs) * (\<Sum>x\<leftarrow>xs. x * x) - sum_list xs * sum_list xs = 0
           \<longleftrightarrow> (\<forall>a \<in> set xs. \<forall>b \<in> set xs. a = b)"
proof
  assume all: "\<forall>a \<in> set xs. \<forall>b \<in> set xs. a = b"
  show "real (length xs) * (\<Sum>x\<leftarrow>xs. x * x) - sum_list xs * sum_list xs = 0"
  proof (cases xs)
    case Nil
    then show ?thesis by simp
  next
    case (Cons c ys)
    with all have "\<And>x. x \<in> set xs \<Longrightarrow> x = c" by auto
    from sum_list_constant[OF this] show ?thesis by (simp add: algebra_simps)
  qed
next
  assume z: "real (length xs) * (\<Sum>x\<leftarrow>xs. x * x) - sum_list xs * sum_list xs = 0"
  show "\<forall>a \<in> set xs. \<forall>b \<in> set xs. a = b"
  proof (cases xs)
    case Nil
    then show ?thesis by simp
  next
    case (Cons c ys)
    define n where "n = real (length xs)"
    define m where "m = sum_list xs / n"
    have n: "0 < n" using Cons by (simp add: n_def)
    have "n * (\<Sum>x\<leftarrow>xs. (x - m)\<^sup>2) = n * (\<Sum>x\<leftarrow>xs. x * x) - sum_list xs * sum_list xs"
      unfolding sum_list_shifted_squares n_def[symmetric] m_def using n
      by (simp add: field_simps power2_eq_square)
    with z n have "(\<Sum>x\<leftarrow>xs. (x - m)\<^sup>2) = 0" by (simp add: n_def)
    then have "\<forall>x \<in> set xs. (x - m)\<^sup>2 = 0"
      by (subst (asm) sum_list_nonneg_eq_0_iff) auto
    then have "\<forall>x \<in> set xs. x = m" by simp
    then show ?thesis by metis
  qed
qed

lemma slope_divisor_zero_iff:
  "slope_divisor pts = 0 \<longleftrightarrow> length (remdups (map fst pts)) \<le> 1"
proof -
  let ?xs = "map (\<lambda>p. real_of_int (fst p)) pts"
  have "slope_divisor pts
      = real (length ?xs) * (\<Sum>x\<leftarrow>?xs. x * x) - sum_list ?xs * sum_list ?xs"
    by (simp add: slope_divisor_def Let_def case_prod_unfold comp_def)
  then have "slope_divisor pts = 0 \<longleftrightarrow> (\<forall>a \<in> set ?xs. \<forall>b \<in> set ?xs. a = b)"
    using divisor_zero_iff[of ?xs] by simp
  also have "\<dots> \<longleftrightarrow> (\<forall>a \<in> set (map fst pts). \<forall>b \<in> set (map fst pts). a = b)"
    by auto
  also have "\<dots> \<longleftrightarrow> card (set (map fst pts)) \<le> 1"
    using card_le_Suc0_iff_eq[of "set (map fst pts)"] by simp
  also have "\<dots> \<longleftrightarrow> length (remdups (map fst pts)) \<le> 1"
    by (simp add: length_remdups_card_conv)
  finally show ?thesis .
qed

lemma scaled_param_ge_1: "1 \<le> scaled_param v"
proof -
  have m: "1 \<le> max \<bar>c_round v\<bar> 1" by simp
  then have "0 \<le> max \<bar>c_round v\<bar> 1" by linarith
  then have "to_int (max \<bar>c_round v\<bar> 1) = \<lfloor>max \<bar>c_round v\<bar> 1\<rfloor>"
    by (simp only: to_int_def if_True)
  moreover have "1 \<le> \<lfloor>max \<bar>c_round v\<bar> 1\<rfloor>" using m by (simp only: le_floor_iff of_int_1)
  ultimately show ?thesis by (simp only: scaled_param_def)
qed

section \<open>Properties of the region grower\<close>

lemma marked_replicate_False: "marked (replicate n False) = {}"
  by (auto simp: marked_def)

lemma marked_set_True:
  assumes "0 \<le> b" "b < int (length u)"
  shows "marked (u[nat b := True]) = insert b (marked u)"
proof -
  have "\<And>c. 0 \<le> c \<Longrightarrow> c < int (length u) \<Longrightarrow> u[nat b := True] ! nat c = (c = b \<or> u ! nat c)"
    using assms by (auto simp: nth_list_update)
  then show ?thesis using assms unfolding marked_def by auto
qed

lemma marked_set_False:
  assumes "0 \<le> b"
  shows "marked (u[nat b := False]) = marked u - {b}"
proof -
  have "u[nat b := False] ! nat c = (c \<noteq> b \<and> u ! nat c)"
    if c: "0 \<le> c" "c < int (length u)" for c
  proof (cases "nat b < length u")
    case True
    then show ?thesis using assms c by (auto simp: nth_list_update)
  next
    case False
    then have "u[nat b := False] = u" by (simp add: list_update_beyond)
    moreover have "c \<noteq> b" using False c by linarith
    ultimately show ?thesis by simp
  qed
  then show ?thesis unfolding marked_def by auto
qed

lemma growth_inv_add:
  assumes "growth_inv A s" and "0 \<le> bin" and "nat bin < length (used s)" and "\<not> used s ! nat bin"
    and "used s' = (used s)[nat bin := True]" and "cluster s' = cluster s @ [bin]"
  shows "growth_inv A s'"
proof -
  have r: "bin < int (length (used s))" using assms(2,3) by linarith
  have "bin \<notin> marked (used s)" using assms(4) by (simp add: marked_def)
  then have nb: "bin \<notin> set (cluster s)" "bin \<notin> A" using assms(1) by (auto simp: growth_inv_def)
  have "marked (used s') = insert bin (marked (used s))"
    using marked_set_True[OF assms(2) r] assms(5) by simp
  with nb assms(1,6) show ?thesis by (auto simp: growth_inv_def)
qed

lemma grow_candidate_effect:
  assumes "grow_candidate cfg st blurred nbinsx nbinsy binx biny xy s = Inr s'"
  shows "(used s' = used s \<and> cluster s' = cluster s)
      \<or> (\<exists>bin. 0 \<le> bin \<and> nat bin < length (used s) \<and> \<not> used s ! nat bin \<and>
           used s' = (used s)[nat bin := True] \<and> cluster s' = cluster s @ [bin])"
  using assms unfolding grow_candidate_def grow_decide_def Let_def raw_at_def
  by (auto split: if_splits sum.splits)

lemma hole_candidate_effect:
  assumes "hole_candidate cfg st blurred nbinsx nbinsy c xy s = Inr s'"
  shows "(used s' = used s \<and> cluster s' = cluster s)
      \<or> (\<exists>bin. 0 \<le> bin \<and> nat bin < length (used s) \<and> \<not> used s ! nat bin \<and>
           used s' = (used s)[nat bin := True] \<and> cluster s' = cluster s @ [bin])"
  using assms unfolding hole_candidate_def hole_decide_def Let_def raw_at_def
  by (auto split: if_splits sum.splits)

lemma growth_inv_cong:
  "used s' = used s \<Longrightarrow> cluster s' = cluster s \<Longrightarrow> growth_inv A s' = growth_inv A s"
  by (simp add: growth_inv_def)

lemma grow_candidate_inv:
  assumes "grow_candidate cfg st blurred nbinsx nbinsy binx biny xy s = Inr s'" and "growth_inv A s"
  shows "growth_inv A s'"
  using grow_candidate_effect[OF assms(1)] assms(2) growth_inv_add[of A s _ s'] growth_inv_cong[of s' s A]
  by blast

lemma hole_candidate_inv:
  assumes "hole_candidate cfg st blurred nbinsx nbinsy c xy s = Inr s'" and "growth_inv A s"
  shows "growth_inv A s'"
  using hole_candidate_effect[OF assms(1)] assms(2) growth_inv_add[of A s _ s'] growth_inv_cong[of s' s A]
  by blast

lemma grow_around_inv:
  assumes "grow_around cfg st blurred nbinsx nbinsy c s = Inr s'" and "growth_inv A s"
  shows "growth_inv A s'"
proof -
  from assms(1) obtain f xs where run: "foldE f xs s = Inr s'"
    and f: "f = grow_candidate cfg st blurred nbinsx nbinsy (c_mod c nbinsx)
                  (c_mod (c_div (c - c_mod c nbinsx) nbinsx) nbinsy)"
    unfolding grow_around_def Let_def by (auto split: if_splits)
  show ?thesis
  proof (rule foldE_invariant[where P = "growth_inv A", OF _ run assms(2)])
    fix x t t' assume "f x t = Inr t'" and "growth_inv A t"
    then show "growth_inv A t'" using grow_candidate_inv f by blast
  qed
qed

lemma hole_around_inv:
  assumes "hole_around cfg st blurred nbinsx nbinsy c s = Inr s'" and "growth_inv A s"
  shows "growth_inv A s'"
proof -
  from assms(1) have run:
    "foldE (hole_candidate cfg st blurred nbinsx nbinsy c) neighbour_offsets s = Inr s'"
    unfolding hole_around_def by (auto split: if_splits)
  show ?thesis
  proof (rule foldE_invariant[where P = "growth_inv A", OF _ run assms(2)])
    fix x t t' assume "hole_candidate cfg st blurred nbinsx nbinsy c x t = Inr t'" and "growth_inv A t"
    then show "growth_inv A t'" using hole_candidate_inv by blast
  qed
qed

lemma grow_pass_inv:
  "grow_pass cfg st blurred nbinsx nbinsy clusBin s = Inr s' \<Longrightarrow> growth_inv A s \<Longrightarrow> growth_inv A s'"
proof (induction cfg st blurred nbinsx nbinsy clusBin s rule: grow_pass.induct)
  case (1 cfg st blurred nbinsx nbinsy clusBin s)
  show ?case
  proof (cases "clusBin < length (cluster s)")
    case True
    with "1.prems"(1) obtain s1 where
      s1: "grow_around cfg st blurred nbinsx nbinsy (cluster s ! clusBin) s = Inr s1"
      and rest: "grow_pass cfg st blurred nbinsx nbinsy (Suc clusBin) s1 = Inr s'"
      by (subst (asm) grow_pass.simps) (auto split: sum.splits)
    from "1.IH"[OF True s1 rest grow_around_inv[OF s1 "1.prems"(2)]] show ?thesis .
  next
    case False
    with "1.prems" show ?thesis by (subst (asm) grow_pass.simps) simp
  qed
qed

lemma hole_pass_inv:
  "hole_pass cfg st blurred nbinsx nbinsy clusBin s = Inr s' \<Longrightarrow> growth_inv A s \<Longrightarrow> growth_inv A s'"
proof (induction cfg st blurred nbinsx nbinsy clusBin s rule: hole_pass.induct)
  case (1 cfg st blurred nbinsx nbinsy clusBin s)
  show ?case
  proof (cases "clusBin < length (cluster s)")
    case True
    with "1.prems"(1) obtain s1 where
      s1: "hole_around cfg st blurred nbinsx nbinsy (cluster s ! clusBin) s = Inr s1"
      and rest: "hole_pass cfg st blurred nbinsx nbinsy (Suc clusBin) s1 = Inr s'"
      by (subst (asm) hole_pass.simps) (auto split: sum.splits)
    from "1.IH"[OF True s1 rest hole_around_inv[OF s1 "1.prems"(2)]] show ?thesis .
  next
    case False
    with "1.prems" show ?thesis by (subst (asm) hole_pass.simps) simp
  qed
qed

lemma grow_loop_inv:
  "grow_loop cfg st blurred nbinsx nbinsy s = Inr s' \<Longrightarrow> growth_inv A s \<Longrightarrow> growth_inv A s'"
proof (induction cfg st blurred nbinsx nbinsy s rule: grow_loop.induct)
  case (1 cfg st blurred nbinsx nbinsy s)
  from "1.prems"(1) obtain s1 where
    s1: "grow_pass cfg st blurred nbinsx nbinsy 0 (s\<lparr>nadded := 0\<rparr>) = Inr s1"
    and rest: "(if nadded s1 = 0 then Inr s1 else grow_loop cfg st blurred nbinsx nbinsy s1) = Inr s'"
    by (subst (asm) grow_loop.simps) (auto split: sum.splits)
  have "growth_inv A (s\<lparr>nadded := 0\<rparr>)" using "1.prems"(2) by (simp add: growth_inv_def)
  from grow_pass_inv[OF s1 this] have i1: "growth_inv A s1" .
  show ?case
  proof (cases "nadded s1 = 0")
    case True
    with rest i1 show ?thesis by simp
  next
    case False
    with rest have "grow_loop cfg st blurred nbinsx nbinsy s1 = Inr s'" by simp
    from "1.IH"[OF s1 False this i1] show ?thesis .
  qed
qed

lemma prune_at_inv:
  assumes "prune_at cfg blurred nbinsx nbinsy k s = Inr s'" and "growth_inv A s"
  shows "growth_inv A s'"
proof -
  from assms(1) have
    "(used s' = used s \<and> cluster s' = cluster s)
      \<or> (k < length (cluster s) \<and> 0 \<le> cluster s ! k
          \<and> used s' = (used s)[nat (cluster s ! k) := False]
          \<and> cluster s' = take k (cluster s) @ drop (Suc k) (cluster s))"
    unfolding prune_at_def raw_at_def raw_put_def
    by (auto split: if_splits sum.splits)
  then show ?thesis
  proof
    assume "used s' = used s \<and> cluster s' = cluster s"
    with assms(2) show ?thesis by (simp add: growth_inv_def)
  next
    assume r: "k < length (cluster s) \<and> 0 \<le> cluster s ! k
          \<and> used s' = (used s)[nat (cluster s ! k) := False]
          \<and> cluster s' = take k (cluster s) @ drop (Suc k) (cluster s)"
    let ?b = "cluster s ! k"
    from assms(2) have d: "distinct (cluster s)" and dis: "set (cluster s) \<inter> A = {}"
      and m: "marked (used s) = set (cluster s) \<union> A" by (auto simp: growth_inv_def)
    have split: "cluster s = take k (cluster s) @ ?b # drop (Suc k) (cluster s)"
      using r by (simp add: id_take_nth_drop)
    have d': "distinct (take k (cluster s) @ drop (Suc k) (cluster s))"
      and notin: "?b \<notin> set (take k (cluster s) @ drop (Suc k) (cluster s))"
      using d by (subst (asm) split, simp)+
    have "set (cluster s) = insert ?b (set (take k (cluster s) @ drop (Suc k) (cluster s)))"
      by (subst split) simp
    with notin have sets: "set (take k (cluster s) @ drop (Suc k) (cluster s)) = set (cluster s) - {?b}"
      by auto
    have bA: "?b \<notin> A" using dis r by (metis disjoint_iff nth_mem)
    have "marked (used s') = marked (used s) - {?b}" using r marked_set_False by simp
    with m sets bA have "marked (used s') = set (cluster s') \<union> A" using r by auto
    moreover have "distinct (cluster s')" using d' r by simp
    moreover have "set (cluster s') \<inter> A = {}" using dis sets r by auto
    ultimately show ?thesis by (simp add: growth_inv_def)
  qed
qed

lemma prune_pass_inv:
  "prune_pass cfg blurred nbinsx nbinsy k s = Inr s' \<Longrightarrow> growth_inv A s \<Longrightarrow> growth_inv A s'"
proof (induction k arbitrary: s)
  case 0
  then show ?case by simp
next
  case (Suc k)
  from Suc.prems(1) obtain s1 where s1: "prune_at cfg blurred nbinsx nbinsy k s = Inr s1"
    and rest: "prune_pass cfg blurred nbinsx nbinsy k s1 = Inr s'"
    by (auto split: sum.splits)
  from Suc.IH[OF rest prune_at_inv[OF s1 Suc.prems(2)]] show ?case .
qed

lemma prune_loop_inv:
  "prune_loop cfg blurred nbinsx nbinsy s = Inr s' \<Longrightarrow> growth_inv A s \<Longrightarrow> growth_inv A s'"
proof (induction cfg blurred nbinsx nbinsy s rule: prune_loop.induct)
  case (1 cfg blurred nbinsx nbinsy s)
  from "1.prems"(1) obtain s1 where
    s1: "prune_pass cfg blurred nbinsx nbinsy (length (cluster s)) (s\<lparr>nremoved := 0\<rparr>) = Inr s1"
    and rest: "(if nremoved s1 = 0 then Inr s1 else prune_loop cfg blurred nbinsx nbinsy s1) = Inr s'"
    by (subst (asm) prune_loop.simps) (auto split: sum.splits)
  have "growth_inv A (s\<lparr>nremoved := 0\<rparr>)" using "1.prems"(2) by (simp add: growth_inv_def)
  from prune_pass_inv[OF s1 this] have i1: "growth_inv A s1" .
  show ?case
  proof (cases "nremoved s1 = 0")
    case True
    with rest i1 show ?thesis by simp
  next
    case False
    with rest have "prune_loop cfg blurred nbinsx nbinsy s1 = Inr s'" by simp
    from "1.IH"[OF s1 False this i1] show ?thesis .
  qed
qed

lemma unmark_marked:
  "unmark cl u = Inr u' \<Longrightarrow> marked u' = marked u - set cl"
  unfolding unmark_def
proof (induction cl arbitrary: u)
  case Nil
  then show ?case by simp
next
  case (Cons c cl)
  from Cons.prems obtain u1 where u1: "raw_put u c False = Inr u1"
    and rest: "foldE (\<lambda>c u. raw_put u c False) cl u1 = Inr u'"
    by (auto split: sum.splits)
  from u1 have "0 \<le> c" "u1 = u[nat c := False]" by (auto simp: raw_put_def split: if_splits)
  then have "marked u1 = marked u - {c}" using marked_set_False by simp
  with Cons.IH[OF rest] show ?case by auto
qed

text \<open>One iteration of the outer loop keeps the mask equal to the accepted cells, plus the
  cells of the cluster it accepts.\<close>

lemma form_cluster_inv:
  assumes "form_cluster cfg st blurred nbinsx nbinsy bin used0 = Inr (used1, r)"
    and "marked used0 = A" and "raw_at used0 bin = Inr False"
  shows "case r of None \<Rightarrow> marked used1 = A
         | Some c \<Rightarrow> distinct c \<and> set c \<inter> A = {} \<and> marked used1 = set c \<union> A"
proof -
  from assms(3) have b: "0 \<le> bin" "bin < int (length used0)" "\<not> used0 ! nat bin"
    by (auto simp: raw_at_def split: if_splits)
  then have put: "raw_put used0 bin True = Inr (used0[nat bin := True])" by (simp add: raw_put_def)
  from assms(1) put obtain time where time: "GetTimeOfBin st blurred bin = Inr time"
    by (auto simp: form_cluster_def split: sum.splits)
  let ?s0 = "seed_state (used0[nat bin := True]) bin time"
  have "bin \<notin> A" using b assms(2) by (auto simp: marked_def)
  then have i0: "growth_inv A ?s0"
    using marked_set_True[OF b(1,2)] assms(2) by (simp add: growth_inv_def seed_state_def)
  from assms(1) put time obtain s1 where s1: "grow_loop cfg st blurred nbinsx nbinsy ?s0 = Inr s1"
    by (auto simp: form_cluster_def split: sum.splits)
  from grow_loop_inv[OF s1 i0] have i1: "growth_inv A s1" .
  show ?thesis
  proof (cases "size_below (length (cluster s1)) (fMinSize cfg)")
    case True
    with assms(1) put time s1 have u: "unmark (cluster s1) (used s1) = Inr used1" and r: "r = None"
      by (auto simp: form_cluster_def split: sum.splits)
    from unmark_marked[OF u] i1 have "marked used1 = A" by (auto simp: growth_inv_def)
    with r show ?thesis by simp
  next
    case False
    with assms(1) put time s1 obtain s2 where s2: "hole_pass cfg st blurred nbinsx nbinsy 0 s1 = Inr s2"
      by (auto simp: form_cluster_def split: sum.splits)
    from hole_pass_inv[OF s2 i1] have i2: "growth_inv A s2" .
    from assms(1) put time s1 False s2 obtain s3 where s3: "prune_loop cfg blurred nbinsx nbinsy s2 = Inr s3"
      by (auto simp: form_cluster_def split: sum.splits)
    from prune_loop_inv[OF s3 i2] have i3: "growth_inv A s3" .
    show ?thesis
    proof (cases "size_below (length (cluster s3)) (fMinSize cfg)")
      case True
      with assms(1) put time s1 False s2 s3 have u: "unmark (cluster s3) (used s3) = Inr used1"
        and r: "r = None"
        by (auto simp: form_cluster_def split: sum.splits)
      from unmark_marked[OF u] i3 have "marked used1 = A" by (auto simp: growth_inv_def)
      with r show ?thesis by simp
    next
      case F2: False
      with assms(1) put time s1 False s2 s3 have "used1 = used s3" "r = Some (cluster s3)"
        by (auto simp: form_cluster_def split: sum.splits)
      with i3 show ?thesis by (simp add: growth_inv_def)
    qed
  qed
qed

lemma disjoint_clusters_snoc:
  assumes "disjoint_clusters cs" and "distinct c" and "set c \<inter> \<Union> (set ` set cs) = {}"
  shows "disjoint_clusters (cs @ [c])"
  unfolding disjoint_clusters_def
proof (intro conjI allI impI ballI)
  fix i j assume ij: "i < j \<and> j < length (cs @ [c])"
  show "set ((cs @ [c]) ! i) \<inter> set ((cs @ [c]) ! j) = {}"
  proof (cases "j < length cs")
    case True
    with ij assms(1) show ?thesis by (simp add: disjoint_clusters_def nth_append)
  next
    case False
    with ij have j: "j = length cs" and i: "i < length cs" by auto
    then have "cs ! i \<in> set cs" by simp
    then have "set (cs ! i) \<subseteq> \<Union> (set ` set cs)" by blast
    with assms(3) j i show ?thesis by (auto simp: nth_append)
  qed
next
  fix d assume "d \<in> set (cs @ [c])"
  with assms(1,2) show "distinct d" by (auto simp: disjoint_clusters_def)
qed

lemma seed_loop_inv:
  assumes "seed_loop cfg st blurred nbinsx nbinsy vs used0 (pre @ new) = Inr (allcluster, used1)"
    and "marked used0 = \<Union> (set ` set new)" and "disjoint_clusters new"
  shows "\<exists>new'. allcluster = pre @ new' \<and> marked used1 = \<Union> (set ` set new')
           \<and> disjoint_clusters new'"
  using assms
proof (induction vs arbitrary: used0 new)
  case Nil
  then show ?case by simp
next
  case (Cons v vs)
  show ?case
  proof (cases "fst v < fMinSeed cfg")
    case True
    with Cons.prems show ?thesis by auto
  next
    case False
    with Cons.prems(1) obtain u where u: "raw_at used0 (snd v) = Inr u"
      by (auto split: sum.splits)
    show ?thesis
    proof (cases u)
      case True
      with Cons.prems(1) False u have
        "seed_loop cfg st blurred nbinsx nbinsy vs used0 (pre @ new) = Inr (allcluster, used1)"
        by simp
      from Cons.IH[OF this Cons.prems(2,3)] show ?thesis .
    next
      case F: False
      with Cons.prems(1) False u obtain used2 r where
        fc: "form_cluster cfg st blurred nbinsx nbinsy (snd v) used0 = Inr (used2, r)"
        by (auto split: sum.splits)
      from form_cluster_inv[OF fc Cons.prems(2)] u F have
        r: "case r of None \<Rightarrow> marked used2 = \<Union> (set ` set new)
            | Some c \<Rightarrow> distinct c \<and> set c \<inter> \<Union> (set ` set new) = {}
                        \<and> marked used2 = set c \<union> \<Union> (set ` set new)"
        by simp
      show ?thesis
      proof (cases r)
        case None
        with Cons.prems(1) False u F fc have
          "seed_loop cfg st blurred nbinsx nbinsy vs used2 (pre @ new) = Inr (allcluster, used1)"
          by simp
        moreover from r None have "marked used2 = \<Union> (set ` set new)" by simp
        ultimately show ?thesis using Cons.IH Cons.prems(3) by blast
      next
        case (Some c)
        with Cons.prems(1) False u F fc have
          run: "seed_loop cfg st blurred nbinsx nbinsy vs used2 (pre @ (new @ [c])) = Inr (allcluster, used1)"
          by simp
        from r Some have c: "distinct c" "set c \<inter> \<Union> (set ` set new) = {}"
          "marked used2 = set c \<union> \<Union> (set ` set new)" by auto
        have m: "marked used2 = \<Union> (set ` set (new @ [c]))" using c(3) by auto
        have d: "disjoint_clusters (new @ [c])"
          using disjoint_clusters_snoc[OF Cons.prems(3) c(1,2)] .
        from Cons.IH[OF run m d] show ?thesis .
      qed
    qed
  qed
qed

lemma FindClusters_run_inv:
  assumes "FindClusters_run cfg st blurred pre = Inr (allcluster, used1)"
  shows "\<exists>new. allcluster = pre @ new \<and> marked used1 = \<Union> (set ` set new) \<and> disjoint_clusters new"
proof -
  from assms obtain row0 where r0: "vec_at blurred 0 = Inr row0"
    by (auto simp: FindClusters_run_def split: sum.splits)
  with assms obtain vals where
    v: "cell_values blurred (int (length blurred)) (int (length row0)) = Inr vals"
    by (auto simp: FindClusters_run_def Let_def split: sum.splits)
  with r0 assms have
    run: "seed_loop cfg st blurred (int (length blurred)) (int (length row0)) (rev (sort vals))
            (replicate (nat (int (length blurred) * int (length row0))) False) (pre @ [])
          = Inr (allcluster, used1)"
    by (simp add: FindClusters_run_def Let_def)
  have m: "marked (replicate (nat (int (length blurred) * int (length row0))) False)
             = \<Union> (set ` set [])"
    by (simp add: marked_replicate_False)
  have d: "disjoint_clusters []" by (simp add: disjoint_clusters_def)
  from seed_loop_inv[OF run m d] show ?thesis .
qed

subsection \<open>The time cut and the recorded times\<close>

lemma PassesTimeCut_iff:
  "PassesTimeCut cfg ts time \<longleftrightarrow> (\<exists>t \<in> set ts. \<bar>time - t\<bar> < fTimeThreshold cfg)"
  by (induction ts) auto

lemma grow_decide_non_positive:
  "time \<le> 0 \<Longrightarrow> time' \<le> 0 \<Longrightarrow> grow_decide cfg v time bin s = grow_decide cfg v time' bin s"
  by (simp add: grow_decide_def growing_time_cut_fails_def)

lemma grow_decide_times:
  "(\<forall>t \<in> set (times_v s). 0 < t) \<Longrightarrow> (\<forall>t \<in> set (times_v (grow_decide cfg v time bin s)). 0 < t)"
  by (simp add: grow_decide_def)

lemma hole_decide_times:
  "(\<forall>t \<in> set (times_v s). 0 < t) \<Longrightarrow> (\<forall>t \<in> set (times_v (hole_decide cfg n time bin s)). 0 < t)"
  by (simp add: hole_decide_def)

lemma grow_candidate_times:
  assumes "grow_candidate cfg st blurred nbinsx nbinsy binx biny xy s = Inr s'"
    and "\<forall>t \<in> set (times_v s). 0 < t"
  shows "\<forall>t \<in> set (times_v s'). 0 < t"
proof -
  from assms(1) have "s' = s \<or> (\<exists>v time bin. s' = grow_decide cfg v time bin s)"
    unfolding grow_candidate_def Let_def by (auto split: if_splits sum.splits)
  with assms(2) grow_decide_times show ?thesis by blast
qed

lemma hole_candidate_times:
  assumes "hole_candidate cfg st blurred nbinsx nbinsy c xy s = Inr s'"
    and "\<forall>t \<in> set (times_v s). 0 < t"
  shows "\<forall>t \<in> set (times_v s'). 0 < t"
proof -
  from assms(1) have "s' = s \<or> (\<exists>n time bin. s' = hole_decide cfg n time bin s)"
    unfolding hole_candidate_def Let_def by (auto split: if_splits sum.splits)
  with assms(2) hole_decide_times show ?thesis by blast
qed

lemma grow_around_times:
  assumes "grow_around cfg st blurred nbinsx nbinsy c s = Inr s'" and "\<forall>t \<in> set (times_v s). 0 < t"
  shows "\<forall>t \<in> set (times_v s'). 0 < t"
proof -
  from assms(1) obtain f xs where run: "foldE f xs s = Inr s'"
    and f: "f = grow_candidate cfg st blurred nbinsx nbinsy (c_mod c nbinsx)
                  (c_mod (c_div (c - c_mod c nbinsx) nbinsx) nbinsy)"
    unfolding grow_around_def Let_def by (auto split: if_splits)
  show ?thesis
  proof (rule foldE_invariant[where P = "\<lambda>s. \<forall>t \<in> set (times_v s). 0 < t", OF _ run assms(2)])
    fix x t t' assume "f x t = Inr t'" and "\<forall>u \<in> set (times_v t). 0 < u"
    then show "\<forall>u \<in> set (times_v t'). 0 < u" using grow_candidate_times f by blast
  qed
qed

lemma hole_around_times:
  assumes "hole_around cfg st blurred nbinsx nbinsy c s = Inr s'" and "\<forall>t \<in> set (times_v s). 0 < t"
  shows "\<forall>t \<in> set (times_v s'). 0 < t"
proof -
  from assms(1) have run:
    "foldE (hole_candidate cfg st blurred nbinsx nbinsy c) neighbour_offsets s = Inr s'"
    unfolding hole_around_def by (auto split: if_splits)
  show ?thesis
  proof (rule foldE_invariant[where P = "\<lambda>s. \<forall>t \<in> set (times_v s). 0 < t", OF _ run assms(2)])
    fix x t t' assume "hole_candidate cfg st blurred nbinsx nbinsy c x t = Inr t'"
      and "\<forall>u \<in> set (times_v t). 0 < u"
    then show "\<forall>u \<in> set (times_v t'). 0 < u" using hole_candidate_times by blast
  qed
qed

lemma grow_pass_times:
  "grow_pass cfg st blurred nbinsx nbinsy clusBin s = Inr s' \<Longrightarrow>
     \<forall>t \<in> set (times_v s). 0 < t \<Longrightarrow> \<forall>t \<in> set (times_v s'). 0 < t"
proof (induction cfg st blurred nbinsx nbinsy clusBin s rule: grow_pass.induct)
  case (1 cfg st blurred nbinsx nbinsy clusBin s)
  show ?case
  proof (cases "clusBin < length (cluster s)")
    case True
    with "1.prems"(1) obtain s1 where
      s1: "grow_around cfg st blurred nbinsx nbinsy (cluster s ! clusBin) s = Inr s1"
      and rest: "grow_pass cfg st blurred nbinsx nbinsy (Suc clusBin) s1 = Inr s'"
      by (subst (asm) grow_pass.simps) (auto split: sum.splits)
    from "1.IH"[OF True s1 rest grow_around_times[OF s1 "1.prems"(2)]] show ?thesis .
  next
    case False
    with "1.prems" show ?thesis by (subst (asm) grow_pass.simps) simp
  qed
qed

lemma hole_pass_times:
  "hole_pass cfg st blurred nbinsx nbinsy clusBin s = Inr s' \<Longrightarrow>
     \<forall>t \<in> set (times_v s). 0 < t \<Longrightarrow> \<forall>t \<in> set (times_v s'). 0 < t"
proof (induction cfg st blurred nbinsx nbinsy clusBin s rule: hole_pass.induct)
  case (1 cfg st blurred nbinsx nbinsy clusBin s)
  show ?case
  proof (cases "clusBin < length (cluster s)")
    case True
    with "1.prems"(1) obtain s1 where
      s1: "hole_around cfg st blurred nbinsx nbinsy (cluster s ! clusBin) s = Inr s1"
      and rest: "hole_pass cfg st blurred nbinsx nbinsy (Suc clusBin) s1 = Inr s'"
      by (subst (asm) hole_pass.simps) (auto split: sum.splits)
    from "1.IH"[OF True s1 rest hole_around_times[OF s1 "1.prems"(2)]] show ?thesis .
  next
    case False
    with "1.prems" show ?thesis by (subst (asm) hole_pass.simps) simp
  qed
qed

lemma grow_loop_times:
  "grow_loop cfg st blurred nbinsx nbinsy s = Inr s' \<Longrightarrow>
     \<forall>t \<in> set (times_v s). 0 < t \<Longrightarrow> \<forall>t \<in> set (times_v s'). 0 < t"
proof (induction cfg st blurred nbinsx nbinsy s rule: grow_loop.induct)
  case (1 cfg st blurred nbinsx nbinsy s)
  from "1.prems"(1) obtain s1 where
    s1: "grow_pass cfg st blurred nbinsx nbinsy 0 (s\<lparr>nadded := 0\<rparr>) = Inr s1"
    and rest: "(if nadded s1 = 0 then Inr s1 else grow_loop cfg st blurred nbinsx nbinsy s1) = Inr s'"
    by (subst (asm) grow_loop.simps) (auto split: sum.splits)
  have "\<forall>t \<in> set (times_v (s\<lparr>nadded := 0\<rparr>)). 0 < t" using "1.prems"(2) by simp
  from grow_pass_times[OF s1 this] have i1: "\<forall>t \<in> set (times_v s1). 0 < t" .
  show ?case
  proof (cases "nadded s1 = 0")
    case True
    with rest i1 show ?thesis by simp
  next
    case False
    with rest have "grow_loop cfg st blurred nbinsx nbinsy s1 = Inr s'" by simp
    from "1.IH"[OF s1 False this i1] show ?thesis .
  qed
qed

text \<open>Two hit maps whose times differ only where both are non-positive grow the same
  clusters.\<close>

lemma grow_candidate_alike:
  assumes "\<And>bin. GetTimeOfBin st1 blurred bin = GetTimeOfBin st2 blurred bin
             \<or> (\<exists>t1 t2. GetTimeOfBin st1 blurred bin = Inr t1
                  \<and> GetTimeOfBin st2 blurred bin = Inr t2 \<and> t1 \<le> 0 \<and> t2 \<le> 0)"
  shows "grow_candidate cfg st1 blurred nbinsx nbinsy binx biny xy s
           = grow_candidate cfg st2 blurred nbinsx nbinsy binx biny xy s"
proof -
  let ?bin = "ConvertWireTickToBin blurred (fst xy) (snd xy)"
  from assms[of ?bin] show ?thesis
  proof
    assume "GetTimeOfBin st1 blurred ?bin = GetTimeOfBin st2 blurred ?bin"
    then show ?thesis by (auto simp: grow_candidate_def Let_def split: sum.splits)
  next
    assume "\<exists>t1 t2. GetTimeOfBin st1 blurred ?bin = Inr t1
                  \<and> GetTimeOfBin st2 blurred ?bin = Inr t2 \<and> t1 \<le> 0 \<and> t2 \<le> 0"
    then obtain t1 t2 where t: "GetTimeOfBin st1 blurred ?bin = Inr t1"
      "GetTimeOfBin st2 blurred ?bin = Inr t2" "t1 \<le> 0" "t2 \<le> 0" by blast
    from grow_decide_non_positive[OF t(3,4)] t(1,2) show ?thesis
      by (auto simp: grow_candidate_def Let_def split: sum.splits)
  qed
qed

lemma grow_around_alike:
  assumes "\<And>bin. GetTimeOfBin st1 blurred bin = GetTimeOfBin st2 blurred bin
             \<or> (\<exists>t1 t2. GetTimeOfBin st1 blurred bin = Inr t1
                  \<and> GetTimeOfBin st2 blurred bin = Inr t2 \<and> t1 \<le> 0 \<and> t2 \<le> 0)"
  shows "grow_around cfg st1 blurred nbinsx nbinsy c s = grow_around cfg st2 blurred nbinsx nbinsy c s"
proof -
  have "grow_candidate cfg st1 blurred nbinsx nbinsy binx biny
          = grow_candidate cfg st2 blurred nbinsx nbinsy binx biny" for binx biny
    using grow_candidate_alike[OF assms] by (intro ext) blast
  then show ?thesis by (simp add: grow_around_def)
qed

lemma grow_pass_alike:
  assumes "\<And>bin. GetTimeOfBin st1 blurred bin = GetTimeOfBin st2 blurred bin
             \<or> (\<exists>t1 t2. GetTimeOfBin st1 blurred bin = Inr t1
                  \<and> GetTimeOfBin st2 blurred bin = Inr t2 \<and> t1 \<le> 0 \<and> t2 \<le> 0)"
  shows "grow_pass cfg st1 blurred nbinsx nbinsy clusBin s
           = grow_pass cfg st2 blurred nbinsx nbinsy clusBin s"
  using assms
proof (induction cfg st1 blurred nbinsx nbinsy clusBin s rule: grow_pass.induct)
  case (1 cfg st1 blurred nbinsx nbinsy clusBin s)
  note ga = grow_around_alike[where ?st1.0 = st1 and ?st2.0 = st2 and blurred = blurred, OF "1.prems"]
  show ?case
  proof (cases "clusBin < length (cluster s)")
    case True
    show ?thesis
    proof (cases "grow_around cfg st1 blurred nbinsx nbinsy (cluster s ! clusBin) s")
      case (Inl e)
      with True ga show ?thesis
        by (simp add: grow_pass.simps[of cfg st1 blurred nbinsx nbinsy clusBin s] grow_pass.simps[of cfg st2 blurred nbinsx nbinsy clusBin s])
    next
      case (Inr s1)
      from "1.IH"[OF True Inr "1.prems"] True Inr ga show ?thesis
        by (simp add: grow_pass.simps[of cfg st1 blurred nbinsx nbinsy clusBin s] grow_pass.simps[of cfg st2 blurred nbinsx nbinsy clusBin s])
    qed
  next
    case False
    then show ?thesis by (simp add: grow_pass.simps[of cfg st1 blurred nbinsx nbinsy clusBin s] grow_pass.simps[of cfg st2 blurred nbinsx nbinsy clusBin s])
  qed
qed

lemma grow_loop_alike:
  assumes "\<And>bin. GetTimeOfBin st1 blurred bin = GetTimeOfBin st2 blurred bin
             \<or> (\<exists>t1 t2. GetTimeOfBin st1 blurred bin = Inr t1
                  \<and> GetTimeOfBin st2 blurred bin = Inr t2 \<and> t1 \<le> 0 \<and> t2 \<le> 0)"
  shows "grow_loop cfg st1 blurred nbinsx nbinsy s = grow_loop cfg st2 blurred nbinsx nbinsy s"
  using assms
proof (induction cfg st1 blurred nbinsx nbinsy s rule: grow_loop.induct)
  case (1 cfg st1 blurred nbinsx nbinsy s)
  note gp = grow_pass_alike[where ?st1.0 = st1 and ?st2.0 = st2 and blurred = blurred, OF "1.prems"]
  show ?case
  proof (cases "grow_pass cfg st1 blurred nbinsx nbinsy 0 (s\<lparr>nadded := 0\<rparr>)")
    case (Inl e)
    with gp show ?thesis by (simp add: grow_loop.simps[of cfg st1 blurred nbinsx nbinsy s] grow_loop.simps[of cfg st2 blurred nbinsx nbinsy s])
  next
    case (Inr s1)
    show ?thesis
    proof (cases "nadded s1 = 0")
      case True
      with Inr gp show ?thesis by (simp add: grow_loop.simps[of cfg st1 blurred nbinsx nbinsy s] grow_loop.simps[of cfg st2 blurred nbinsx nbinsy s])
    next
      case False
      from "1.IH"[OF Inr False "1.prems"] Inr False gp show ?thesis
        by (simp add: grow_loop.simps[of cfg st1 blurred nbinsx nbinsy s] grow_loop.simps[of cfg st2 blurred nbinsx nbinsy s])
    qed
  qed
qed

subsection \<open>The count of used neighbours and the unsigned threshold\<close>

lemma foldE_count:
  assumes "\<And>x a. f x a = Inl (e x a) \<or> f x a = Inr a \<or> (p x \<and> f x a = Inr (Suc a))"
    and "foldE f xs a = Inr b"
  shows "b \<le> a + length (filter p xs)"
  using assms(2)
proof (induction xs arbitrary: a)
  case Nil
  then show ?case by simp
next
  case (Cons x xs)
  from Cons.prems obtain a1 where s: "f x a = Inr a1" and r: "foldE f xs a1 = Inr b"
    by (auto split: sum.splits)
  from assms(1)[of x a] s have "a1 = a \<or> (p x \<and> a1 = Suc a)" by auto
  with Cons.IH[OF r] show ?case by auto
qed

lemma NumNeighbours_le_8:
  assumes "NumNeighbours nbinsx u bin = Inr n"
  shows "n \<le> 8"
proof -
  let ?p = "\<lambda>xy :: int \<times> int. \<not> (fst xy = 0 \<and> snd xy = 0)"
  let ?f = "\<lambda>xy neighbours.
              if fst xy = 0 \<and> snd xy = 0 then Inr neighbours
              else
                case vec_at u (bin + fst xy + snd xy * nbinsx) of
                  Inl e \<Rightarrow> Inl e
                | Inr v \<Rightarrow> Inr (if v then neighbours + 1 else neighbours)"
  have st: "?f x a = Inl ((\<lambda>x a. OutOfRange) x a) \<or> ?f x a = Inr a \<or> (?p x \<and> ?f x a = Inr (Suc a))"
    for x and a :: nat
    by (auto simp: vec_at_def)
  have run: "foldE ?f neighbour_offsets 0 = Inr n" using assms by (simp add: NumNeighbours_def)
  have "n \<le> 0 + length (filter ?p neighbour_offsets)"
    by (rule foldE_count[where f = ?f and p = ?p and e = "\<lambda>x a. OutOfRange", OF st run])
  also have "length (filter ?p neighbour_offsets) = 8"
    by (simp add: neighbour_offsets_def upto_rec1)
  finally show ?thesis by simp
qed

lemma as_unsigned_id: "0 \<le> i \<Longrightarrow> i < 2 ^ 32 \<Longrightarrow> as_unsigned i = i"
  by (simp add: as_unsigned_def)

lemma as_unsigned_negative:
  assumes "- (2 ^ 31) \<le> i" "i < 0"
  shows "2 ^ 31 \<le> as_unsigned i"
proof -
  have "i mod 2 ^ 32 = i + 2 ^ 32"
  proof -
    have "(i + 2 ^ 32) mod 2 ^ 32 = i + 2 ^ 32" using assms by (intro mod_pos_pos_trivial) auto
    then show ?thesis by simp
  qed
  then show ?thesis using assms by (simp add: as_unsigned_def)
qed

section \<open>Properties of the index into the kernel\<close>

text \<open>
  The offsets visited around a cell, and the condition under which every index computed
  from them lies inside a kernel of \<open>(2 bw + 1) (2 bt (M + 1) + 1)\<close> weights.
\<close>

lemma flat_index_bounds:
  fixes w q r h :: int
  assumes "0 \<le> r" "r < w"
  shows "0 \<le> w * q + r \<longleftrightarrow> 0 \<le> q" and "w * q + r < w * h \<longleftrightarrow> q < h"
proof -
  have w: "0 < w" using assms by simp
  show "0 \<le> w * q + r \<longleftrightarrow> 0 \<le> q"
  proof
    assume a: "0 \<le> w * q + r"
    show "0 \<le> q"
    proof (rule ccontr)
      assume "\<not> 0 \<le> q"
      then have "q \<le> - 1" by simp
      then have "w * q \<le> w * (- 1)" using w by (intro mult_left_mono) auto
      with assms a show False by simp
    qed
  next
    assume "0 \<le> q"
    then have "0 \<le> w * q" using w by simp
    with assms show "0 \<le> w * q + r" by simp
  qed
  show "w * q + r < w * h \<longleftrightarrow> q < h"
  proof
    assume a: "w * q + r < w * h"
    show "q < h"
    proof (rule ccontr)
      assume "\<not> q < h"
      then have "h \<le> q" by simp
      then have "w * h \<le> w * q" using w by (intro mult_left_mono) auto
      with assms a show False by simp
    qed
  next
    assume "q < h"
    then have "q + 1 \<le> h" by simp
    then have "w * (q + 1) \<le> w * h" using w by (intro mult_left_mono) auto
    then have "w * q + w \<le> w * h" by (simp add: algebra_simps)
    with assms show "w * q + r < w * h" by simp
  qed
qed

lemma set_blur_offsets:
  assumes "0 \<le> bw" "0 \<le> bt"
  shows "set (blur_offsets (2 * bw + 1) (2 * bt + 1) ts)
           = {(i, j). - bw \<le> i \<and> i \<le> bw \<and> - (bt * ts) \<le> j \<and> j < (bt + 1) * ts}"
proof -
  have a: "c_div (- (2 * bw + 1)) 2 = - bw" "c_div (2 * bw + 1 + 1) 2 = bw + 1"
    "c_div (- (2 * bt + 1)) 2 = - bt" "c_div (2 * bt + 1 + 1) 2 = bt + 1"
    using assms by (auto simp: c_div_def sgn_if)
  show ?thesis unfolding blur_offsets_def Let_def a by auto
qed

lemma weight_index_range:
  assumes "0 \<le> bw" "1 \<le> bt" "1 \<le> ts" "0 \<le> M"
  shows "(\<forall>b \<in> set (blur_offsets (2 * bw + 1) (2 * bt + 1) ts).
            0 \<le> weight_index (2 * bw + 1) (2 * bt * (M + 1) + 1) b
          \<and> weight_index (2 * bw + 1) (2 * bt * (M + 1) + 1) b
              < (2 * bw + 1) * (2 * bt * (M + 1) + 1))
         \<longleftrightarrow> ts \<le> M + 1 \<and> (bt + 1) * ts \<le> bt * (M + 1) + 1"
proof -
  let ?K = "bt * (M + 1)"
  have K: "0 \<le> ?K" using assms by simp
  have kh: "c_div (2 * bt * (M + 1) + 1) 2 = ?K"
  proof -
    have "c_div (2 * ?K + 1) 2 = ?K" using K by (simp add: c_div_def sgn_if)
    then show ?thesis by (simp only: mult.assoc)
  qed
  have kw: "c_div (2 * bw + 1) 2 = bw" using assms(1) by (simp add: c_div_def sgn_if)
  have idx: "(0 \<le> weight_index (2 * bw + 1) (2 * bt * (M + 1) + 1) (i, j)
          \<and> weight_index (2 * bw + 1) (2 * bt * (M + 1) + 1) (i, j)
              < (2 * bw + 1) * (2 * bt * (M + 1) + 1))
        \<longleftrightarrow> - ?K \<le> j \<and> j \<le> ?K"
    if "- bw \<le> i" "i \<le> bw" for i j
  proof -
    have r: "0 \<le> bw + i" "bw + i < 2 * bw + 1" using that by simp_all
    have e: "2 * bt * (M + 1) + 1 = 2 * ?K + 1" by (simp only: mult.assoc)
    have wi: "weight_index (2 * bw + 1) (2 * ?K + 1) (i, j)
                = (2 * bw + 1) * (?K + j) + (bw + i)"
      using kh by (simp only: weight_index_def kw fst_conv snd_conv e)
    have i1: "0 \<le> (2 * bw + 1) * (?K + j) + (bw + i) \<longleftrightarrow> 0 \<le> ?K + j"
      by (rule flat_index_bounds(1)[OF r])
    have i2: "(2 * bw + 1) * (?K + j) + (bw + i) < (2 * bw + 1) * (2 * ?K + 1)
                \<longleftrightarrow> ?K + j < 2 * ?K + 1"
      by (rule flat_index_bounds(2)[OF r])
    have lin: "(0 \<le> k + j \<and> k + j < 2 * k + 1) \<longleftrightarrow> - k \<le> j \<and> j \<le> k" for k :: int
      by linarith
    show ?thesis unfolding wi e i1 i2 by (rule lin)
  qed
  have "(\<forall>b \<in> set (blur_offsets (2 * bw + 1) (2 * bt + 1) ts).
            0 \<le> weight_index (2 * bw + 1) (2 * bt * (M + 1) + 1) b
          \<and> weight_index (2 * bw + 1) (2 * bt * (M + 1) + 1) b
              < (2 * bw + 1) * (2 * bt * (M + 1) + 1))
        \<longleftrightarrow> (\<forall>j. - (bt * ts) \<le> j \<and> j < (bt + 1) * ts \<longrightarrow> - ?K \<le> j \<and> j \<le> ?K)"
    (is "?L \<longleftrightarrow> ?R")
  proof
    assume l: ?L
    show ?R
    proof (intro allI impI)
      fix y assume y: "- (bt * ts) \<le> y \<and> y < (bt + 1) * ts"
      have "(0, y) \<in> set (blur_offsets (2 * bw + 1) (2 * bt + 1) ts)"
        using assms y by (simp add: set_blur_offsets)
      from l[rule_format, OF this] idx[of 0 y] assms(1) show "- ?K \<le> y \<and> y \<le> ?K" by simp
    qed
  next
    assume r: ?R
    show ?L
    proof
      fix b assume "b \<in> set (blur_offsets (2 * bw + 1) (2 * bt + 1) ts)"
      then obtain i y where b: "b = (i, y)" "- bw \<le> i" "i \<le> bw"
        "- (bt * ts) \<le> y \<and> y < (bt + 1) * ts"
        using assms by (auto simp: set_blur_offsets)
      from r[rule_format, OF b(4)] idx[OF b(2,3), of y] b(1)
      show "0 \<le> weight_index (2 * bw + 1) (2 * bt * (M + 1) + 1) b
          \<and> weight_index (2 * bw + 1) (2 * bt * (M + 1) + 1) b
              < (2 * bw + 1) * (2 * bt * (M + 1) + 1)" by simp
    qed
  qed
  also have "\<dots> \<longleftrightarrow> ts \<le> M + 1 \<and> (bt + 1) * ts \<le> bt * (M + 1) + 1"
  proof
    assume a: "\<forall>j. - (bt * ts) \<le> j \<and> j < (bt + 1) * ts \<longrightarrow> - ?K \<le> j \<and> j \<le> ?K"
    have p: "0 < (bt + 1) * ts" using assms by simp
    have n: "- (bt * ts) \<le> 0" using assms by simp
    from a[rule_format, of "- (bt * ts)"] n p have "bt * ts \<le> bt * (M + 1)" by simp
    then have "ts \<le> M + 1" using assms(2) by (simp add: mult_le_cancel_left)
    moreover from a[rule_format, of "(bt + 1) * ts - 1"] n p
    have "(bt + 1) * ts \<le> ?K + 1" by simp
    ultimately show "ts \<le> M + 1 \<and> (bt + 1) * ts \<le> bt * (M + 1) + 1" by simp
  next
    assume a: "ts \<le> M + 1 \<and> (bt + 1) * ts \<le> bt * (M + 1) + 1"
    then have "bt * ts \<le> bt * (M + 1)" using assms(2) by (intro mult_left_mono) auto
    with a show "\<forall>j. - (bt * ts) \<le> j \<and> j < (bt + 1) * ts \<longrightarrow> - ?K \<le> j \<and> j \<le> ?K"
      by auto
  qed
  finally show ?thesis .
qed

text \<open>A loop that fails at one element, and the window of a cell of tick scale 3 in a
  kernel of 3 by 9 weights.\<close>

lemma foldE_fails_at:
  assumes "\<And>x s. x \<in> set pre \<Longrightarrow> \<exists>s'. f x s = Inr s'" and "\<And>s. f c s = Inl e"
  shows "foldE f (pre @ c # post) s = Inl e"
  using assms(1)
proof (induction pre arbitrary: s)
  case Nil
  then show ?case by (simp add: assms(2))
next
  case (Cons a pre)
  from Cons.prems[of a s] obtain s' where "f a s = Inr s'" by auto
  moreover have "foldE f (pre @ c # post) s' = Inl e" using Cons.IH Cons.prems by simp
  ultimately show ?case by simp
qed

lemma foldE_skip_or_fail:
  assumes "\<And>x. x \<in> set xs \<Longrightarrow> f x s = Inr s \<or> f x s = Inl e" and "\<exists>x \<in> set xs. f x s = Inl e"
  shows "foldE f xs s = Inl e"
  using assms
proof (induction xs)
  case Nil
  then show ?case by simp
next
  case (Cons a xs)
  show ?case
  proof (cases "f a s = Inl e")
    case True
    then show ?thesis by simp
  next
    case False
    with Cons.prems(1)[of a] have a: "f a s = Inr s" by simp
    with Cons.prems(2) False have "\<exists>x \<in> set xs. f x s = Inl e" by auto
    with Cons.IH Cons.prems(1) a show ?thesis by simp
  qed
qed

lemma smear_in_range:
  assumes "0 \<le> weight_index kernel_width kernel_height b"
    and "weight_index kernel_width kernel_height b < int (length k)"
  shows "\<exists>s'. smear k kernel_width kernel_height nbinsx nbinsy x y v b s = Inr s'"
  using assms by (simp add: smear_def vec_at_def Let_def)

lemma smear_out_of_range:
  assumes "int (length k) \<le> weight_index kernel_width kernel_height b"
  shows "smear k kernel_width kernel_height nbinsx nbinsy x y v b s = Inl OutOfRange"
  using assms by (simp add: smear_def vec_at_def)

lemma blur_offsets_333:
  "blur_offsets 3 3 3 =
     map (\<lambda>j. (- 1, j)) [- 3 .. 4] @ (- 1, 5) # (map (\<lambda>j. (0, j)) [- 3 .. 5] @ map (\<lambda>j. (1, j)) [- 3 .. 5])"
  by (simp add: blur_offsets_def c_div_def upto_rec1)

lemma smear_window_fails:
  assumes "length k = 27"
  shows "foldE (smear k 3 9 nbinsx nbinsy x y v) (blur_offsets 3 3 3) s = Inl OutOfRange"
  unfolding blur_offsets_333
proof (rule foldE_fails_at)
  fix b :: "int \<times> int" and s :: image
  assume "b \<in> set (map (\<lambda>j. (- 1, j)) [- 3 .. 4])"
  then obtain j where b: "b = (- 1, j)" "- 3 \<le> j" "j \<le> 4" by auto
  then have "0 \<le> weight_index 3 9 b" "weight_index 3 9 b < int (length k)"
    using assms by (simp_all add: weight_index_def c_div_def)
  then show "\<exists>s'. smear k 3 9 nbinsx nbinsy x y v b s = Inr s'" by (rule smear_in_range)
next
  fix s :: image
  have "int (length k) \<le> weight_index 3 9 (- 1, 5)" using assms by (simp add: weight_index_def c_div_def)
  then show "smear k 3 9 nbinsx nbinsy x y v (- 1, 5) s = Inl OutOfRange" by (rule smear_out_of_range)
qed

section \<open>Properties of the clustering of an all-zero image\<close>

lemma foldE_collect:
  assumes "\<And>x. x \<in> set xs \<Longrightarrow> g x = Inr (h x)"
  shows "foldE (\<lambda>x acc. case g x of Inl e \<Rightarrow> Inl e | Inr v \<Rightarrow> Inr (acc @ [(v, k x)])) xs acc
           = Inr (acc @ map (\<lambda>x. (h x, k x)) xs)"
  using assms by (induction xs arbitrary: acc) simp_all

lemma bin_of_cell:
  assumes "0 \<le> x" "x < int (length img)" "0 \<le> y" "y < 40" "length img \<le> 40"
  shows "ConvertWireTickToBin img x y = y * int (length img) + x"
proof -
  have a: "0 \<le> y * int (length img) + x" using assms by simp
  have "y * int (length img) \<le> 39 * 40" using assms by (intro mult_mono) auto
  then have b: "y * int (length img) + x < 2 ^ 31" using assms by simp
  then have c: "y * int (length img) + x < 2 ^ 64" by simp
  have tx: "to_size_t x = x" "to_size_t y = y" using assms by (simp_all add: to_size_t_def)
  have "to_size_t (y * int (length img) + x) = y * int (length img) + x"
    using a c by (simp add: to_size_t_def)
  moreover have "narrow_int (y * int (length img) + x) = y * int (length img) + x"
    using a b by (simp add: narrow_int_def Let_def)
  ultimately show ?thesis by (simp add: ConvertWireTickToBin_def tx)
qed

lemma charge_of_cell:
  assumes "0 \<le> x" "x < int (length img)" "0 \<le> y" "y < 40" "length img \<le> 40"
  shows "ConvertBinToCharge img (y * int (length img) + x) = at2 img x y"
proof -
  have a: "0 \<le> y * int (length img) + x" using assms by simp
  have "y * int (length img) \<le> 39 * 40" using assms by (intro mult_mono) auto
  then have c: "y * int (length img) + x < 2 ^ 64" using assms by simp
  have t: "to_size_t (y * int (length img) + x) = y * int (length img) + x"
    using a c by (simp add: to_size_t_def)
  have m: "x mod int (length img) = x" using assms(1,2) by (rule mod_pos_pos_trivial)
  have d: "(y * int (length img) + x) div int (length img) = y"
  proof -
    have "int (length img) \<noteq> 0" using assms(1,2) by auto
    then have "(y * int (length img) + x) div int (length img) = y + x div int (length img)"
      by (rule div_mult_self3)
    also have "x div int (length img) = 0" using assms(1,2) by (rule div_pos_pos_trivial)
    finally show ?thesis by simp
  qed
  have nx: "narrow_int x = x" using assms by (simp add: narrow_int_def Let_def)
  have ny: "narrow_int y = y" using assms by (simp add: narrow_int_def Let_def)
  from assms have "length img \<noteq> 0" by auto
  then show ?thesis by (simp add: ConvertBinToCharge_def t m d nx ny Let_def)
qed

lemma cell_values_zero:
  assumes "0 < n" "n \<le> 40" "0 < m" "m \<le> 40"
  shows "\<exists>vals. cell_values (replicate n (replicate m 0)) (int n) (int m) = Inr vals
           \<and> vals \<noteq> [] \<and> (\<forall>v \<in> set vals. fst v = 0)"
proof -
  let ?img = "replicate n (replicate m (0::real))"
  let ?cells = "concat (map (\<lambda>xbin. map (\<lambda>ybin. (xbin, ybin)) [0 .. int m - 1]) [0 .. int n - 1])"
  let ?g = "\<lambda>xy. ConvertBinToCharge ?img (ConvertWireTickToBin ?img (fst xy) (snd xy))"
  have g: "?g xy = Inr ((\<lambda>_. 0) xy)" if "xy \<in> set ?cells" for xy
  proof -
    from that have r: "0 \<le> fst xy" "fst xy < int n" "0 \<le> snd xy" "snd xy < int m" by auto
    then have r': "fst xy < int (length ?img)" "snd xy < 40" "length ?img \<le> 40"
      using assms by auto
    from bin_of_cell[OF r(1) r'(1) r(3) r'(2,3)] charge_of_cell[OF r(1) r'(1) r(3) r'(2,3)]
    have "?g xy = at2 ?img (fst xy) (snd xy)" by simp
    also have "\<dots> = Inr 0" using r by (simp add: at2_def vec_at_def)
    finally show ?thesis .
  qed
  have "cell_values ?img (int n) (int m)
          = Inr ([] @ map (\<lambda>xy. (0, ConvertWireTickToBin ?img (fst xy) (snd xy))) ?cells)"
    unfolding cell_values_def Let_def
    using foldE_collect[where g = ?g and h = "\<lambda>_. 0"
        and k = "\<lambda>xy. ConvertWireTickToBin ?img (fst xy) (snd xy)" and xs = ?cells and acc = "[]", OF g]
    by simp
  moreover have "(0, 0) \<in> set ?cells" using assms by (auto intro!: bexI[where x = 0])
  then have "?cells \<noteq> []" by (rule_tac notI) simp
  ultimately show ?thesis by auto
qed

lemma FindClusters_zero_image:
  assumes "0 < n" "n \<le> 40" "0 < m" "m \<le> 40" and "0 < fMinSeed cfg"
  shows "FindClusters_run cfg st (replicate n (replicate m 0)) pre
           = Inr (pre, replicate (n * m) False)"
proof -
  let ?img = "replicate n (replicate m (0::real))"
  from cell_values_zero[OF assms(1-4)] obtain vals where
    v: "cell_values ?img (int n) (int m) = Inr vals" "vals \<noteq> []" "\<forall>v \<in> set vals. fst v = 0"
    by blast
  have "length (rev (sort vals)) = length vals" by simp
  with v(2) have "rev (sort vals) \<noteq> []" by (metis length_0_conv)
  then obtain w ws where w: "rev (sort vals) = w # ws" by (cases "rev (sort vals)") auto
  then have "w \<in> set (rev (sort vals))" by simp
  then have "fst w = 0" using v(3) by simp
  then have s: "seed_loop cfg st ?img (int n) (int m) (rev (sort vals)) u pre = Inr (pre, u)" for u
    using assms(5) w by simp
  have r0: "vec_at ?img 0 = Inr (replicate m 0)" using assms(1) by (simp add: vec_at_def)
  show ?thesis
    by (simp add: FindClusters_run_def r0 v(1) s Let_def nat_mult_distrib flip: of_nat_mult)
qed

section \<open>Evaluations on the concrete inputs\<close>

lemma blur_parameters_bc: "FindBlurringParameters config_a state_bc = Inr (1, 1, 1, 1)"
  by (simp add: FindBlurringParameters_def config_a_def state_bc_def slope_divisor_def
      slope_dividend_def Unit_def scaled_param_def c_round_def to_int_def)

lemma run_blurred_a:
  "FindClusters_run config_c state_0 blurred_a []
     = Inr ([[19, 22], [4, 7]],
            [False, False, False, False, True, False, False, True, False, False,
             False, False, False, False, False, False, False, False, False, True,
             False, False, True, False, False, False, False])"
  by code_simp

lemma times_state_g:
  "GetTimeOfBin state_g blurred_c b = GetTimeOfBin state_0 blurred_c b
     \<or> (\<exists>t1 t2. GetTimeOfBin state_g blurred_c b = Inr t1
          \<and> GetTimeOfBin state_0 blurred_c b = Inr t2 \<and> t1 \<le> 0 \<and> t2 \<le> 0)"
  by (simp add: GetTimeOfBin_def ConvertBinToRecobHit_def state_g_def state_0_def blurred_c_def
      hit_g_def Let_def)

lemma build_bc:
  "ConvertRecobHitsToVector detector_a [hit_b, hit_c] = Inr (state_bc, image_bc, widths_bc)"
  by (simp add: ConvertRecobHitsToVector_def detector_a_def hit_b_def hit_c_def to_int_def new_image_def
      at2_def put2_def vec_at_def state_bc_def image_bc_def widths_bc_def)

lemma cell_bc:
  assumes "0 \<le> x" "x < 41" "0 \<le> y" "y < 40"
  shows "raw_at2 image_bc x y = Inr (if (x = 20 \<or> x = 21) \<and> y = 20 then (if x = 20 then 50 else 40) else 0)"
    and "raw_at2 widths_bc x y = Inr (if (x = 20 \<or> x = 21) \<and> y = 20 then 3 else 0)"
proof -
  have n: "nat x < 41" "nat y < 40" using assms by auto
  have e: "nat x = 20 \<longleftrightarrow> x = 20" "nat x = 21 \<longleftrightarrow> x = 21" "nat y = 20 \<longleftrightarrow> y = 20"
    using assms by auto
  show "raw_at2 image_bc x y = Inr (if (x = 20 \<or> x = 21) \<and> y = 20 then (if x = 20 then 50 else 40) else 0)"
    using assms n by (auto simp: raw_at2_def raw_at_def image_bc_def nth_list_update e)
  show "raw_at2 widths_bc x y = Inr (if (x = 20 \<or> x = 21) \<and> y = 20 then 3 else 0)"
    using assms n by (auto simp: raw_at2_def raw_at_def widths_bc_def nth_list_update e)
qed

lemma convolve_bc:
  assumes "find_kernel (fKernels config_a) allKernels 3 = Inr k" and "length k = 27"
  shows "Convolve config_a image_bc widths_bc allKernels 3 9 3 3 = Inl OutOfRange"
proof -
  let ?cells = "concat (map (\<lambda>x. map (\<lambda>y. (x, y)) [0 .. 40 - 1]) [0 .. 41 - 1])"
  let ?copy = "replicate (nat 41) (replicate (nat 40) (0::real))"
  let ?f = "convolve_cell config_a image_bc widths_bc allKernels 3 9 3 3 41 40"
  have ts: "tick_scale_of config_a 3 = Inr 3"
    by (simp add: tick_scale_of_def clamp_tick_scale_def config_a_def to_int_def)
  have cell: "?f (x, y) s = (if (x = 20 \<or> x = 21) \<and> y = 20 then Inl OutOfRange else Inr s)"
    if r: "0 \<le> x" "x < 41" "0 \<le> y" "y < 40" for x y s
  proof (cases "(x = 20 \<or> x = 21) \<and> y = 20")
    case True
    with cell_bc[OF r] obtain c where
      c: "raw_at2 image_bc x y = Inr c" "c \<noteq> 0" and w: "raw_at2 widths_bc x y = Inr 3"
      by auto
    have "?f (x, y) s = Inl OutOfRange"
      by (simp add: convolve_cell_def c w ts assms(1) smear_window_fails[OF assms(2)])
    with True show ?thesis by simp
  next
    case False
    with cell_bc(1)[OF r] have "raw_at2 image_bc x y = Inr 0" by auto
    with False show ?thesis by (simp add: convolve_cell_def)
  qed
  have a: "?f xy ?copy = Inr ?copy \<or> ?f xy ?copy = Inl OutOfRange" if "xy \<in> set ?cells" for xy
  proof -
    from that have "0 \<le> fst xy" "fst xy < 41" "0 \<le> snd xy" "snd xy < 40" by auto
    from cell[OF this, of ?copy] show ?thesis by (simp split: if_splits)
  qed
  have "(20, 20) \<in> set ?cells" by (auto intro!: bexI[where x = 20])
  moreover have "?f (20, 20) ?copy = Inl OutOfRange" using cell[of 20 20 ?copy] by simp
  ultimately have b: "\<exists>xy \<in> set ?cells. ?f xy ?copy = Inl OutOfRange" by blast
  have "foldE ?f ?cells ?copy = Inl OutOfRange" using a b by (rule foldE_skip_or_fail)
  moreover have "vec_at image_bc 0 = Inr (replicate 40 0)" by (simp add: vec_at_def image_bc_def)
  moreover have "length image_bc = 41" by (simp add: image_bc_def)
  ultimately show ?thesis by (simp add: Convolve_def Let_def)
qed

section \<open>Claims\<close>

subsection \<open>C1: round trip between image construction and materialization\<close>

text \<open>
  C1. The claim: a hit stored in the hit index at cell (wire, tick) is returned by
  \<open>ConvertBinToRecobHit\<close> for the linear bin of that cell, and a cell whose coordinates
  are not in the index yields no hit. The code subtracts one from both coordinates
  before the lookup (bins of the former histogram were counted from one, the vectors are
  counted from zero), so the claim fails already for a single hit at wire 10, tick 100:
  the image is 40 by 40 with lower bounds -10 and 80, the hit is stored under (10, 100)
  and fills cell (20, 20), bin 820; looking bin 820 up asks for (9, 99) and finds
  nothing, while bin 861 of the empty cell (21, 21) returns the hit. The hit group
  materialized from the bins 820 and 861 is therefore the hit, taken from the wrong cell.
\<close>

theorem C1_round_trip_off_by_one:
  "case ConvertRecobHitsToVector detector_a [hit_a] of
     Inl e \<Rightarrow> False
   | Inr (st, img, widths) \<Rightarrow>
       length img = 40 \<and> fLowerHistWire st = - 10 \<and> fLowerHistTick st = 80
       \<and> map_of (fHitMap st) (10, 100) = Some hit_a
       \<and> at2 img 20 20 = Inr 50
       \<and> ConvertWireTickToBin img (10 - fLowerHistWire st) (100 - fLowerHistTick st) = 820
       \<and> ConvertBinToRecobHit st img 820 = Inr None
       \<and> map_of (fHitMap st) (11, 101) = None
       \<and> ConvertWireTickToBin img 21 21 = 861
       \<and> ConvertBinToRecobHit st img 861 = Inr (Some hit_a)
       \<and> ConvertBinsToRecobHits st img [820, 861] = Inr [hit_a]"
  by (simp add: ConvertRecobHitsToVector_def detector_a_def hit_a_def to_int_def new_image_def
      at2_def put2_def vec_at_def ConvertBinToRecobHit_def ConvertWireTickToBin_def
      to_size_t_def narrow_int_def ConvertBinsToRecobHits_def)

subsection \<open>C2: the empty input\<close>

text \<open>
  C2, as amended. For an empty hit sequence the bounds stay at their initial values, so
  the image is sized \<open>40 - MaxWires\<close> by \<open>40 - ReadOutWindowSize\<close>. When both detector
  constants are at most 40, \<open>ConvertRecobHitsToVector\<close> returns an all-zero image, all-zero
  widths and an empty hit map; otherwise a dimension is negative and the allocation fails.
  When the image is built: \<open>GaussianBlur\<close> returns it unchanged if both configured sigmas
  are zero, and otherwise the slope estimate divides 0 by 0; \<open>FindClusters\<close> fails on the
  read of row 0 when the image has no row, reads past the end of the empty list of values
  when the rows are empty, and returns no cluster when both dimensions are positive and the
  seed threshold is positive; \<open>ConvertBinsToClusters\<close> of no cluster is the empty list.
\<close>

theorem C2_empty_input_image:
  "ConvertRecobHitsToVector det [] =
     (if MaxWires det \<le> 40 \<and> ReadOutWindowSize det \<le> 40 then
        Inr (\<lparr>fLowerHistTick = int (ReadOutWindowSize det) - 20, fUpperHistTick = 20,
              fLowerHistWire = int (MaxWires det) - 20, fUpperHistWire = 20, fHitMap = []\<rparr>,
             replicate (40 - MaxWires det) (replicate (40 - ReadOutWindowSize det) 0),
             replicate (40 - MaxWires det) (replicate (40 - ReadOutWindowSize det) 0))
      else Inl LengthError)
   \<and> (\<forall>st img widths. ConvertRecobHitsToVector det [] = Inr (st, img, widths) \<longrightarrow>
         GaussianBlur cfg st img widths
           = (if fSigmaWire cfg = 0 \<and> fSigmaTick cfg = 0 then Inr img else Inl UndefinedNumeric)
       \<and> (MaxWires det = 40 \<longrightarrow> FindClusters cfg st img [] = Inl OutOfRange)
       \<and> (MaxWires det < 40 \<and> ReadOutWindowSize det = 40 \<longrightarrow>
            FindClusters cfg st img [] = Inl UndefinedBehaviour)
       \<and> (MaxWires det < 40 \<and> ReadOutWindowSize det < 40 \<and> 0 < fMinSeed cfg \<longrightarrow>
            FindClusters cfg st img [] = Inr ([], 0))
       \<and> ConvertBinsToClusters cfg st img [] [] = Inr [])"
proof -
  let ?n = "40 - MaxWires det" and ?m = "40 - ReadOutWindowSize det"
  let ?z = "replicate ?n (replicate ?m (0::real))"
  let ?st = "\<lparr>fLowerHistTick = int (ReadOutWindowSize det) - 20, fUpperHistTick = 20,
              fLowerHistWire = int (MaxWires det) - 20, fUpperHistWire = 20, fHitMap = []\<rparr>"
  have nm: "nat (40 - int (MaxWires det)) = ?n" "nat (40 - int (ReadOutWindowSize det)) = ?m"
    by linarith+
  then have build: "ConvertRecobHitsToVector det [] =
     (if MaxWires det \<le> 40 \<and> ReadOutWindowSize det \<le> 40 then Inr (?st, ?z, ?z) else Inl LengthError)"
    by (auto simp: ConvertRecobHitsToVector_def new_image_def Let_def)
  have rest: "GaussianBlur cfg st img widths
           = (if fSigmaWire cfg = 0 \<and> fSigmaTick cfg = 0 then Inr img else Inl UndefinedNumeric)
       \<and> (MaxWires det = 40 \<longrightarrow> FindClusters cfg st img [] = Inl OutOfRange)
       \<and> (MaxWires det < 40 \<and> ReadOutWindowSize det = 40 \<longrightarrow>
            FindClusters cfg st img [] = Inl UndefinedBehaviour)
       \<and> (MaxWires det < 40 \<and> ReadOutWindowSize det < 40 \<and> 0 < fMinSeed cfg \<longrightarrow>
            FindClusters cfg st img [] = Inr ([], 0))
       \<and> ConvertBinsToClusters cfg st img [] [] = Inr []"
    if r: "ConvertRecobHitsToVector det [] = Inr (st, img, widths)" for st img widths
  proof -
    from r build have st: "st = ?st" and img: "img = ?z"
      by (auto split: if_splits)
    have blur: "GaussianBlur cfg st img widths
           = (if fSigmaWire cfg = 0 \<and> fSigmaTick cfg = 0 then Inr img else Inl UndefinedNumeric)"
      by (simp add: GaussianBlur_def FindBlurringParameters_def slope_divisor_def st)
    have none: "FindClusters cfg st img [] = Inl OutOfRange" if "MaxWires det = 40"
      using that by (simp add: FindClusters_def FindClusters_run_def vec_at_def img)
    have flat: "FindClusters cfg st img [] = Inl UndefinedBehaviour"
      if "MaxWires det < 40 \<and> ReadOutWindowSize det = 40"
    proof -
      have e: "concat (map (\<lambda>xbin. []) xs) = []" for xs :: "int list"
        by (induction xs) simp_all
      from that show ?thesis
        by (simp add: FindClusters_def FindClusters_run_def vec_at_def img cell_values_def e Let_def)
    qed
    have zero: "FindClusters cfg st img [] = Inr ([], 0)"
      if h: "MaxWires det < 40 \<and> ReadOutWindowSize det < 40 \<and> 0 < fMinSeed cfg"
    proof -
      from h have "0 < ?n" "?n \<le> 40" "0 < ?m" "?m \<le> 40" "0 < fMinSeed cfg" by auto
      from FindClusters_zero_image[OF this, of st "[]"] show ?thesis
        by (simp add: FindClusters_def img)
    qed
    have mat: "ConvertBinsToClusters cfg st img [] [] = Inr []"
      by (simp add: ConvertBinsToClusters_def)
    from blur none flat zero mat show ?thesis by blast
  qed
  from build rest show ?thesis by blast
qed

text \<open>An instance: 38 wires and 39 ticks give a 2 by 1 image.\<close>

theorem C2_empty_input_image_witness:
  "MaxWires detector_s < 40 \<and> ReadOutWindowSize detector_s < 40 \<and> 0 < fMinSeed config_a
   \<and> (\<exists>st. ConvertRecobHitsToVector detector_s [] = Inr (st, [[0], [0]], [[0], [0]])
        \<and> fHitMap st = []
        \<and> GaussianBlur config_a st [[0], [0]] [[0], [0]] = Inl UndefinedNumeric
        \<and> GaussianBlur (config_a\<lparr>fSigmaWire := 0, fSigmaTick := 0\<rparr>) st [[0], [0]] [[0], [0]]
            = Inr [[0], [0]]
        \<and> FindClusters config_a st [[0], [0]] [] = Inr ([], 0)
        \<and> ConvertBinsToClusters config_a st [[0], [0]] [] [] = Inr [])"
proof -
  let ?st = "\<lparr>fLowerHistTick = 19, fUpperHistTick = 20, fLowerHistWire = 18, fUpperHistWire = 20,
               fHitMap = []\<rparr>"
  have h: "MaxWires detector_s < 40" "ReadOutWindowSize detector_s < 40" "0 < fMinSeed config_a"
    by (simp_all add: detector_s_def config_a_def)
  have two: "replicate 2 [0::real] = [[0], [0]]" by (simp add: numeral_2_eq_2)
  have b: "ConvertRecobHitsToVector detector_s [] = Inr (?st, [[0], [0]], [[0], [0]])"
    using C2_empty_input_image[of detector_s config_a, THEN conjunct1] by (simp add: detector_s_def two)
  have s: "fSigmaWire config_a \<noteq> 0" by (simp add: config_a_def)
  from C2_empty_input_image[of detector_s config_a, THEN conjunct2, rule_format, OF b] h s
  have "GaussianBlur config_a ?st [[0], [0]] [[0], [0]] = Inl UndefinedNumeric"
    "FindClusters config_a ?st [[0], [0]] [] = Inr ([], 0)"
    "ConvertBinsToClusters config_a ?st [[0], [0]] [] [] = Inr []"
    by simp_all
  moreover
  from C2_empty_input_image[of detector_s "config_a\<lparr>fSigmaWire := 0, fSigmaTick := 0\<rparr>", THEN conjunct2, rule_format, OF b]
  have "GaussianBlur (config_a\<lparr>fSigmaWire := 0, fSigmaTick := 0\<rparr>) ?st [[0], [0]] [[0], [0]]
            = Inr [[0], [0]]"
    by simp
  ultimately show ?thesis using h b by simp
qed

text \<open>
  The claim as stated has no negative or wrapped dimension and no error. With 500 wires
  and a readout window of 1000 ticks the dimensions are -460 and -960.
\<close>

theorem C2_empty_input_wraps:
  "MaxWires detector_a = 500 \<and> ReadOutWindowSize detector_a = 1000
   \<and> scan_bounds [] (int (ReadOutWindowSize detector_a), 0, int (MaxWires detector_a), 0)
        = (1000, 0, 500, 0)
   \<and> new_image (20 - (500 - 20)) (20 - (1000 - 20)) = Inl LengthError
   \<and> ConvertRecobHitsToVector detector_a [] = Inl LengthError"
  by (simp add: ConvertRecobHitsToVector_def detector_a_def new_image_def)

subsection \<open>C3: admission during hole filling\<close>

text \<open>
  C3, as amended. During hole filling a neighbour is admitted if and only if it is not on
  the image border, is unused, the count of its used 8-neighbours exceeds
  \<open>fNeighboursThreshold\<close> in an unsigned comparison (the threshold itself when it is not
  negative; a negative threshold converts to a value above every count and admits
  nothing), and \<open>PassesTimeCut\<close> holds for its time: the time of its hit, or
  -10000 when it has none, lies within \<open>fTimeThreshold\<close> of a recorded time. Nothing is
  bypassed: with no recorded times no neighbour is admitted, and a cell without a hit is
  admitted only if the window reaches from -10000 to a recorded time. A candidate that is
  not admitted leaves the state as it was.
\<close>

theorem C3_hole_filling_admission:
  assumes "hole_candidate cfg st blurred nbinsx nbinsy c xy s = Inr s'"
  shows "(cluster s' = cluster s @ [c + fst xy + snd xy * nbinsx] \<longleftrightarrow>
            \<not> (fst xy = 0 \<and> snd xy = 0)
          \<and> \<not> on_border nbinsx nbinsy (c + fst xy + snd xy * nbinsx)
          \<and> raw_at (used s) (c + fst xy + snd xy * nbinsx) = Inr False
          \<and> (\<exists>n time. NumNeighbours nbinsx (used s) (c + fst xy + snd xy * nbinsx) = Inr n
                \<and> GetTimeOfBin st blurred (c + fst xy + snd xy * nbinsx) = Inr time
                \<and> int n > as_unsigned (fNeighboursThreshold cfg)
                \<and> PassesTimeCut cfg (times_v s) time))
       \<and> (cluster s' \<noteq> cluster s @ [c + fst xy + snd xy * nbinsx] \<longrightarrow> s' = s)
       \<and> (times_v s = [] \<longrightarrow> s' = s)
       \<and> (GetTimeOfBin st blurred (c + fst xy + snd xy * nbinsx) = Inr (- 10000)
            \<and> (\<forall>t \<in> set (times_v s). 0 < t) \<and> fTimeThreshold cfg \<le> 10000 \<longrightarrow> s' = s)
       \<and> (0 \<le> fNeighboursThreshold cfg \<and> fNeighboursThreshold cfg < 2 ^ 31 \<longrightarrow>
            as_unsigned (fNeighboursThreshold cfg) = fNeighboursThreshold cfg)
       \<and> (- (2 ^ 31) \<le> fNeighboursThreshold cfg \<and> fNeighboursThreshold cfg < 0 \<longrightarrow> s' = s)"
proof -
  let ?nb = "c + fst xy + snd xy * nbinsx"
  let ?adm = "\<not> (fst xy = 0 \<and> snd xy = 0) \<and> \<not> on_border nbinsx nbinsy ?nb
          \<and> raw_at (used s) ?nb = Inr False
          \<and> (\<exists>n time. NumNeighbours nbinsx (used s) ?nb = Inr n
                \<and> GetTimeOfBin st blurred ?nb = Inr time
                \<and> int n > as_unsigned (fNeighboursThreshold cfg)
                \<and> PassesTimeCut cfg (times_v s) time)"
  have yes: "cluster s' = cluster s @ [?nb]" if ?adm
    using assms that unfolding hole_candidate_def hole_decide_def Let_def
    by (auto split: if_splits sum.splits)
  have no: "s' = s" if "\<not> ?adm"
    using assms that unfolding hole_candidate_def hole_decide_def Let_def
    by (auto split: if_splits sum.splits)
  have iff: "cluster s' = cluster s @ [?nb] \<longleftrightarrow> ?adm"
    using yes no by auto
  have empty: "s' = s" if "times_v s = []"
  proof -
    from that have "\<not> ?adm" by simp
    then show ?thesis by (rule no)
  qed
  have synthetic: "s' = s"
    if g: "GetTimeOfBin st blurred ?nb = Inr (- 10000)" and pos: "\<forall>t \<in> set (times_v s). 0 < t"
      and thr: "fTimeThreshold cfg \<le> 10000"
  proof -
    have "\<not> PassesTimeCut cfg (times_v s) (- 10000)"
      unfolding PassesTimeCut_iff using pos thr by fastforce
    with g have "\<not> ?adm" by auto
    then show ?thesis by (rule no)
  qed
  have plain: "as_unsigned (fNeighboursThreshold cfg) = fNeighboursThreshold cfg"
    if "0 \<le> fNeighboursThreshold cfg \<and> fNeighboursThreshold cfg < 2 ^ 31"
    using that by (intro as_unsigned_id) auto
  have negative: "s' = s"
    if n: "- (2 ^ 31) \<le> fNeighboursThreshold cfg \<and> fNeighboursThreshold cfg < 0"
  proof -
    from n have big: "2 ^ 31 \<le> as_unsigned (fNeighboursThreshold cfg)"
      by (intro as_unsigned_negative) auto
    have "\<not> int m > as_unsigned (fNeighboursThreshold cfg)"
      if "NumNeighbours nbinsx (used s) ?nb = Inr m" for m
      using NumNeighbours_le_8[OF that] big by simp
    then have "\<not> ?adm" by blast
    then show ?thesis by (rule no)
  qed
  from iff no empty synthetic plain negative show ?thesis by blast
qed

text \<open>
  Three instances around the one interior cell of a 3 by 3 image whose other cells are
  used: with the recorded time 1/4 and a hit of time -1/2 the cell is admitted; with no
  recorded time it is not; with the threshold -1 it is not.
\<close>

theorem C3_hole_filling_admission_witness:
  "hole_candidate config_a state_g blurred_c 3 3 0 (1, 1) growth_c
     = Inr (growth_c\<lparr>used := [True, True, True, True, True, True, True, True, True],
                     cluster := [0, 1, 2, 3, 5, 6, 7, 8, 4]\<rparr>)
   \<and> \<not> on_border 3 3 4 \<and> raw_at (used growth_c) 4 = Inr False
   \<and> NumNeighbours 3 (used growth_c) 4 = Inr 8
   \<and> GetTimeOfBin state_g blurred_c 4 = Inr (- 1 / 2)
   \<and> PassesTimeCut config_a (times_v growth_c) (- 1 / 2)
   \<and> hole_candidate config_a state_0 blurred_c 3 3 0 (1, 1) growth_b = Inr growth_b
   \<and> times_v growth_b = []
   \<and> fNeighboursThreshold config_n = - 1
   \<and> hole_candidate config_n state_g blurred_c 3 3 0 (1, 1) growth_c = Inr growth_c"
proof -
  have a: "hole_candidate config_a state_g blurred_c 3 3 0 (1, 1) growth_c
     = Inr (growth_c\<lparr>used := [True, True, True, True, True, True, True, True, True],
                     cluster := [0, 1, 2, 3, 5, 6, 7, 8, 4]\<rparr>)"
    by code_simp
  have b: "hole_candidate config_a state_0 blurred_c 3 3 0 (1, 1) growth_b = Inr growth_b"
    by code_simp
  have c: "\<not> on_border 3 3 4" "raw_at (used growth_c) 4 = Inr False"
    "NumNeighbours 3 (used growth_c) 4 = Inr 8" "GetTimeOfBin state_g blurred_c 4 = Inr (- 1 / 2)"
    "PassesTimeCut config_a (times_v growth_c) (- 1 / 2)" "times_v growth_b = []"
    by code_simp+
  have d: "hole_candidate config_n state_g blurred_c 3 3 0 (1, 1) growth_c = Inr growth_c"
    "fNeighboursThreshold config_n = - 1"
    by code_simp+
  from C3_hole_filling_admission[OF a] C3_hole_filling_admission[OF b]
    C3_hole_filling_admission[OF d(1)] a b c d show ?thesis by blast
qed

text \<open>
  The claim as stated lets a cell without a hit, or any candidate of a cluster without
  recorded times, bypass the time cut as in growing. Here the cell has no hit, the cluster
  has no recorded time, all eight neighbours are used (8 > 0) and the time rule of growing
  does not fail, so growing admits the cell on its charge; hole filling leaves it out.
\<close>

theorem C3_hole_filling_has_no_bypass:
  "\<not> on_border 3 3 4 \<and> raw_at (used growth_b) 4 = Inr False
   \<and> NumNeighbours 3 (used growth_b) 4 = Inr 8
   \<and> int 8 > as_unsigned (fNeighboursThreshold config_a)
   \<and> GetTimeOfBin state_0 blurred_c 4 = Inr (- 10000)
   \<and> times_v growth_b = []
   \<and> \<not> growing_time_cut_fails config_a (times_v growth_b) (- 10000)
   \<and> cluster (grow_decide config_a 2 (- 10000) 4 growth_b) = cluster growth_b @ [4]
   \<and> hole_candidate config_a state_0 blurred_c 3 3 0 (1, 1) growth_b = Inr growth_b"
  by code_simp

subsection \<open>C4: the kernels\<close>

text \<open>
  C4, as amended. For every configured tier \<open>t\<close> (with non-negative blur radii and tier
  ceiling, and non-zero sigmas) the kernel built for \<open>t\<close> exists, its tick-axis sigma is the base tick sigma
  times \<open>t\<close>, its window spans \<open>\<plusminus>blurwire\<close> in the wire axis and
  \<open>\<plusminus>blurtick * (fMaxTickWidthScale + 1)\<close> in the tick axis (one more tier than the
  ceiling), its size \<open>(2 blurwire + 1) (2 blurtick (fMaxTickWidthScale + 1) + 1)\<close> does not
  depend on \<open>t\<close>, and the weight stored for offset (i, j) is the product of the two
  Gaussian densities, not renormalized. Doubles are read as reals.
\<close>

theorem C4_kernel_window_and_weights:
  assumes "0 \<le> blurwire" and "0 \<le> blurtick" and "0 \<le> fMaxTickWidthScale cfg"
    and "t \<in> set (fKernels cfg)"
    and "sigmawire \<noteq> 0" and "sigmatick * t \<noteq> 0"
  shows "\<exists>allKernels k.
           make_kernels cfg blurwire blurtick sigmawire sigmatick = Inr allKernels
         \<and> allKernels t = Some k
         \<and> int (length k) = (2 * blurwire + 1) * (2 * (blurtick * (fMaxTickWidthScale cfg + 1)) + 1)
         \<and> (\<forall>i j. - blurwire \<le> i \<and> i \<le> blurwire
                   \<and> - (blurtick * (fMaxTickWidthScale cfg + 1)) \<le> j
                   \<and> j \<le> blurtick * (fMaxTickWidthScale cfg + 1) \<longrightarrow>
                 k ! nat ((2 * blurwire + 1) * (j + blurtick * (fMaxTickWidthScale cfg + 1)) + (i + blurwire))
                   = exp (- (of_int i)\<^sup>2 / (2 * (of_int sigmawire)\<^sup>2))
                       / sqrt (2 * pi * (of_int sigmawire)\<^sup>2)
                     * (exp (- (of_int j)\<^sup>2 / (2 * (of_int (sigmatick * t))\<^sup>2))
                       / sqrt (2 * pi * (of_int (sigmatick * t))\<^sup>2)))"
proof -
  have "0 \<le> blurtick * (fMaxTickWidthScale cfg + 1)" using assms(2,3) by simp
  from kernels_content[where sigmawire = sigmawire and sigmatick = sigmatick, OF assms(1) this assms(4)]
  show ?thesis by (simp add: kernel_value_gauss mult.assoc)
qed

text \<open>An instance: blur radii and sigmas 1, tier ceiling 3, the weight at offset (0, 0).\<close>

theorem C4_kernel_window_and_weights_witness:
  "(0::int) \<le> 1 \<and> 0 \<le> fMaxTickWidthScale config_a \<and> 1 \<in> set (fKernels config_a)
   \<and> (1::int) \<noteq> 0 \<and> (1::int) * 1 \<noteq> 0
   \<and> (\<exists>allKernels k.
           make_kernels config_a 1 1 1 1 = Inr allKernels
         \<and> allKernels 1 = Some k
         \<and> length k = 27
         \<and> k ! 13 = exp (- 0 / 2) / sqrt (2 * pi) * (exp (- 0 / 2) / sqrt (2 * pi)))"
proof -
  have a: "(0::int) \<le> 1" by simp
  have b: "0 \<le> fMaxTickWidthScale config_a" by (simp add: config_a_def)
  have c: "1 \<in> set (fKernels config_a)" by (simp add: config_a_def)
  have d: "(1::int) \<noteq> 0" "(1::int) * 1 \<noteq> 0" by simp_all
  from C4_kernel_window_and_weights[where sigmawire = 1 and sigmatick = 1, OF a a b c d]
  obtain allKernels k where
    m: "make_kernels config_a 1 1 1 1 = Inr allKernels" "allKernels 1 = Some k"
    and len: "int (length k) = (2 * 1 + 1) * (2 * (1 * (fMaxTickWidthScale config_a + 1)) + 1)"
    and cont: "\<forall>i j. - 1 \<le> i \<and> i \<le> 1 \<and> - (1 * (fMaxTickWidthScale config_a + 1)) \<le> j
                   \<and> j \<le> 1 * (fMaxTickWidthScale config_a + 1) \<longrightarrow>
                 k ! nat ((2 * 1 + 1) * (j + 1 * (fMaxTickWidthScale config_a + 1)) + (i + 1))
                   = exp (- (of_int i)\<^sup>2 / (2 * (of_int (1::int))\<^sup>2))
                       / sqrt (2 * pi * (of_int (1::int))\<^sup>2)
                     * (exp (- (of_int j)\<^sup>2 / (2 * (of_int ((1::int) * 1))\<^sup>2))
                       / sqrt (2 * pi * (of_int ((1::int) * 1))\<^sup>2))"
    by auto
  have l: "length k = 27" using len by (simp add: config_a_def)
  from cont[rule_format, of 0 0] have v: "k ! 13 = exp (- 0 / 2) / sqrt (2 * pi) * (exp (- 0 / 2) / sqrt (2 * pi))"
    by (simp add: config_a_def)
  from a b c d m l v show ?thesis by blast
qed

text \<open>
  The claim as stated gives the tick window as \<open>\<plusminus>(blurTick * tierCeiling)\<close>. With blur
  radii 1 and tier ceiling 3 that would be 3 by 7 = 21 weights; the kernel has 3 by 9 = 27,
  and the weight at tick offset 4, beyond the claimed window, is set and positive.
\<close>

theorem C4_window_exceeds_tier_ceiling:
  "\<exists>allKernels k.
      make_kernels config_a 1 1 1 1 = Inr allKernels \<and> allKernels 1 = Some k
    \<and> fMaxTickWidthScale config_a = 3
    \<and> length k = 27
    \<and> length k \<noteq> nat ((2 * 1 + 1) * (2 * (1 * fMaxTickWidthScale config_a) + 1))
    \<and> k ! 25 = kernel_value 1 1 0 4 \<and> 0 < kernel_value 1 1 0 4"
proof -
  have t: "1 \<in> set (fKernels config_a)" by (simp add: config_a_def)
  have h: "0 \<le> (1::int) * (fMaxTickWidthScale config_a + 1)" by (simp add: config_a_def)
  from kernels_content[where blurwire = 1 and blurtick = 1 and sigmawire = 1 and sigmatick = 1,
      OF _ h t]
  obtain allKernels k where
    m: "make_kernels config_a 1 1 1 1 = Inr allKernels" "allKernels 1 = Some k"
    and len: "int (length k) = (2 * 1 + 1) * (2 * 1 * (fMaxTickWidthScale config_a + 1) + 1)"
    and cont: "\<forall>i j. - 1 \<le> i \<and> i \<le> 1 \<and> - (1 * (fMaxTickWidthScale config_a + 1)) \<le> j
                   \<and> j \<le> 1 * (fMaxTickWidthScale config_a + 1) \<longrightarrow>
                 k ! nat ((2 * 1 + 1) * (j + 1 * (fMaxTickWidthScale config_a + 1)) + (i + 1))
                   = kernel_value 1 (1 * 1) i j"
    by auto
  have l: "length k = 27" using len by (simp add: config_a_def)
  from cont[rule_format, of 0 4] have v: "k ! 25 = kernel_value 1 1 0 4"
    by (simp add: config_a_def)
  have p: "0 < kernel_value 1 1 0 4" by (simp add: kernel_value_def)
  from m l v p show ?thesis by (simp add: config_a_def)
qed

subsection \<open>C5: the least-squares slope\<close>

text \<open>
  C5, as amended. \<open>FindBlurringParameters\<close> has no test for the degenerate case. The
  divisor \<open>nhits * sumx2 - sumx * sumx\<close> is zero exactly when the hit map holds fewer than
  two distinct wire coordinates; then the quotient is undefined, and with it the blur radii
  and sigmas. For every other hit map the divisor is not zero and the four results are
  integers of at least 1.
\<close>

theorem C5_slope_division_unguarded:
  "(length (remdups (map fst (map fst (fHitMap st)))) \<le> 1
      \<and> slope_divisor (map fst (fHitMap st)) = 0
      \<and> FindBlurringParameters cfg st = Inl UndefinedNumeric)
   \<or> (1 < length (remdups (map fst (map fst (fHitMap st))))
      \<and> slope_divisor (map fst (fHitMap st)) \<noteq> 0
      \<and> (\<exists>blurwire blurtick sigmawire sigmatick.
            FindBlurringParameters cfg st = Inr (blurwire, blurtick, sigmawire, sigmatick)
          \<and> 1 \<le> blurwire \<and> 1 \<le> blurtick \<and> 1 \<le> sigmawire \<and> 1 \<le> sigmatick))"
proof (cases "slope_divisor (map fst (fHitMap st)) = 0")
  case True
  then have "FindBlurringParameters cfg st = Inl UndefinedNumeric"
    by (simp add: FindBlurringParameters_def)
  with True slope_divisor_zero_iff[of "map fst (fHitMap st)"] show ?thesis by simp
next
  case False
  then have "\<exists>blurwire blurtick sigmawire sigmatick.
            FindBlurringParameters cfg st = Inr (blurwire, blurtick, sigmawire, sigmatick)
          \<and> 1 \<le> blurwire \<and> 1 \<le> blurtick \<and> 1 \<le> sigmawire \<and> 1 \<le> sigmatick"
    by (simp add: FindBlurringParameters_def Let_def scaled_param_ge_1)
  with False slope_divisor_zero_iff[of "map fst (fHitMap st)"] show ?thesis by simp
qed

text \<open>
  The claim as stated has the division guarded. For the single hit of C1 the divisor is
  \<open>1 * 100 - 10 * 10 = 0\<close>, nothing tests it, and the blur fails on the undefined
  quotient.
\<close>

theorem C5_single_hit_divides_by_zero:
  "case ConvertRecobHitsToVector detector_a [hit_a] of
     Inl e \<Rightarrow> False
   | Inr (st, img, widths) \<Rightarrow>
       fHitMap st = [((10, 100), hit_a)]
       \<and> slope_divisor (map fst (fHitMap st)) = 0
       \<and> FindBlurringParameters config_a st = Inl UndefinedNumeric
       \<and> GaussianBlur config_a st img widths = Inl UndefinedNumeric"
  by (simp add: ConvertRecobHitsToVector_def detector_a_def hit_a_def to_int_def new_image_def
      at2_def put2_def vec_at_def FindBlurringParameters_def slope_divisor_def GaussianBlur_def
      config_a_def)

subsection \<open>C6: the kernel lookup of the convolver\<close>

text \<open>
  C6, as amended. \<open>reconfigure\<close> raises the configuration error exactly when the tier set
  lacks 1. When it has accepted the configuration, the tier of a source cell is the
  computed tier \<open>c\<close> clamped by \<^verbatim>\<open>Max(Min(c, fMaxTickWidthScale), 1)\<close>: this is \<open>c\<close> itself
  when \<open>c\<close> lies in [1, fMaxTickWidthScale], the ceiling when \<open>c\<close> is above a ceiling of at
  least 1, and 1 otherwise; it is at least 1, and at most the ceiling when the ceiling is
  at least 1. The kernels are built whenever the blur radii are non-negative and the
  ceiling is at least -1, and whenever they have been built the downward search from the
  clamped tier ends on a non-empty kernel: the kernel of the largest configured tier not
  above the clamped one.
\<close>

theorem C6_kernel_lookup_succeeds:
  assumes "reconfigure p = Inr cfg"
  shows "1 \<in> set (fKernels cfg)
       \<and> (\<forall>q. reconfigure q = (if 1 \<in> set (fKernels q) then Inr q else Inl Configuration))
       \<and> (\<forall>w. fTickWidthRescale cfg \<noteq> 0 \<longrightarrow>
             tick_scale_of cfg w = Inr (clamp_tick_scale cfg (to_int (w / fTickWidthRescale cfg))))
       \<and> (\<forall>c. clamp_tick_scale cfg c =
                 (if c < 1 \<or> fMaxTickWidthScale cfg < 1 then 1
                  else if fMaxTickWidthScale cfg < c then fMaxTickWidthScale cfg else c))
       \<and> (\<forall>c. 1 \<le> clamp_tick_scale cfg c
               \<and> (1 \<le> fMaxTickWidthScale cfg \<longrightarrow> clamp_tick_scale cfg c \<le> fMaxTickWidthScale cfg)
               \<and> (1 \<le> c \<and> c \<le> fMaxTickWidthScale cfg \<longrightarrow> clamp_tick_scale cfg c = c))
       \<and> (0 \<le> blurwire \<and> 0 \<le> blurtick \<and> - 1 \<le> fMaxTickWidthScale cfg \<longrightarrow>
             (\<exists>allKernels. make_kernels cfg blurwire blurtick sigmawire sigmatick = Inr allKernels))
       \<and> (\<forall>allKernels. make_kernels cfg blurwire blurtick sigmawire sigmatick = Inr allKernels \<longrightarrow>
             (\<forall>c. \<exists>t k. find_kernel (fKernels cfg) allKernels (clamp_tick_scale cfg c) = Inr k
                     \<and> k \<noteq> []
                     \<and> t \<in> set (fKernels cfg) \<and> 1 \<le> t \<and> t \<le> clamp_tick_scale cfg c
                     \<and> allKernels t = Some k
                     \<and> (\<forall>u \<in> set (fKernels cfg). u \<le> clamp_tick_scale cfg c \<longrightarrow> u \<le> t)))"
proof -
  have one: "1 \<in> set (fKernels cfg)"
    using assms by (auto simp: reconfigure_def split: if_splits)
  have rc: "\<forall>q. reconfigure q = (if 1 \<in> set (fKernels q) then Inr q else Inl Configuration)"
    by (simp add: reconfigure_def)
  have ts: "\<forall>w. fTickWidthRescale cfg \<noteq> 0 \<longrightarrow>
             tick_scale_of cfg w = Inr (clamp_tick_scale cfg (to_int (w / fTickWidthRescale cfg)))"
    by (simp add: tick_scale_of_def)
  have cl: "\<forall>c. clamp_tick_scale cfg c =
                 (if c < 1 \<or> fMaxTickWidthScale cfg < 1 then 1
                  else if fMaxTickWidthScale cfg < c then fMaxTickWidthScale cfg else c)"
    by (simp add: clamp_tick_scale_def)
  have rg: "\<forall>c. 1 \<le> clamp_tick_scale cfg c
               \<and> (1 \<le> fMaxTickWidthScale cfg \<longrightarrow> clamp_tick_scale cfg c \<le> fMaxTickWidthScale cfg)
               \<and> (1 \<le> c \<and> c \<le> fMaxTickWidthScale cfg \<longrightarrow> clamp_tick_scale cfg c = c)"
    by (simp add: clamp_tick_scale_def)
  have built: "0 \<le> blurwire \<and> 0 \<le> blurtick \<and> - 1 \<le> fMaxTickWidthScale cfg \<longrightarrow>
             (\<exists>allKernels. make_kernels cfg blurwire blurtick sigmawire sigmatick = Inr allKernels)"
  proof
    assume h: "0 \<le> blurwire \<and> 0 \<le> blurtick \<and> - 1 \<le> fMaxTickWidthScale cfg"
    then have "0 \<le> blurtick * (fMaxTickWidthScale cfg + 1)" by simp
    with make_kernels_ok[where sw = sigmawire and st = sigmatick and bw = blurwire and bt = blurtick
        and cfg = cfg] h
    show "\<exists>allKernels. make_kernels cfg blurwire blurtick sigmawire sigmatick = Inr allKernels"
      by blast
  qed
  have look: "\<forall>allKernels. make_kernels cfg blurwire blurtick sigmawire sigmatick = Inr allKernels \<longrightarrow>
             (\<forall>c. \<exists>t k. find_kernel (fKernels cfg) allKernels (clamp_tick_scale cfg c) = Inr k
                     \<and> k \<noteq> []
                     \<and> t \<in> set (fKernels cfg) \<and> 1 \<le> t \<and> t \<le> clamp_tick_scale cfg c
                     \<and> allKernels t = Some k
                     \<and> (\<forall>u \<in> set (fKernels cfg). u \<le> clamp_tick_scale cfg c \<longrightarrow> u \<le> t))"
  proof (intro allI impI)
    fix m c
    assume m: "make_kernels cfg blurwire blurtick sigmawire sigmatick = Inr m"
    let ?c = "clamp_tick_scale cfg c"
    have nonempty: "\<And>t'. t' \<in> set (fKernels cfg) \<Longrightarrow> \<exists>ker. m t' = Some ker \<and> ker \<noteq> []"
      using make_kernels_nonempty[OF m] .
    have c1: "1 \<le> ?c" by (simp add: clamp_tick_scale_def)
    from find_kernel_finds[where kernels = m, OF one c1 _ nonempty] obtain t k where
      r: "find_kernel (fKernels cfg) m ?c = Inr k" "t \<in> set (fKernels cfg)" "1 \<le> t" "t \<le> ?c"
         "m t = Some k" "\<forall>u \<in> set (fKernels cfg). u \<le> ?c \<longrightarrow> u \<le> t"
      by auto
    from nonempty[OF r(2)] r(5) have "k \<noteq> []" by auto
    with r show "\<exists>t k. find_kernel (fKernels cfg) m ?c = Inr k
                     \<and> k \<noteq> []
                     \<and> t \<in> set (fKernels cfg) \<and> 1 \<le> t \<and> t \<le> ?c
                     \<and> m t = Some k
                     \<and> (\<forall>u \<in> set (fKernels cfg). u \<le> ?c \<longrightarrow> u \<le> t)"
      by blast
  qed
  from one rc ts cl rg built look show ?thesis by (intro conjI)
qed

text \<open>An instance: tier set [1], ceiling 3; the computed tiers 7, 2 and 0 are clamped to 3, 2
  and 1, and the search from 3 ends on the kernel of tier 1.\<close>

theorem C6_kernel_lookup_succeeds_witness:
  "reconfigure config_a = Inr config_a \<and> fTickWidthRescale config_a \<noteq> 0
   \<and> (0::int) \<le> 1 \<and> - 1 \<le> fMaxTickWidthScale config_a
   \<and> tick_scale_of config_a 7 = Inr 3 \<and> tick_scale_of config_a 2 = Inr 2
   \<and> tick_scale_of config_a 0 = Inr 1
   \<and> (\<exists>allKernels k.
          make_kernels config_a 1 1 1 1 = Inr allKernels
        \<and> find_kernel (fKernels config_a) allKernels 3 = Inr k
        \<and> allKernels 1 = Some k)"
proof -
  have a: "reconfigure config_a = Inr config_a" by (simp add: reconfigure_def config_a_def)
  have r: "fTickWidthRescale config_a \<noteq> 0" by (simp add: config_a_def)
  have b: "- 1 \<le> fMaxTickWidthScale config_a" by (simp add: config_a_def)
  have c: "(0::int) \<le> 1" by simp
  note th = C6_kernel_lookup_succeeds[where sigmawire = 1 and sigmatick = 1 and blurwire = 1 and blurtick = 1, OF a]
  from th r have t: "tick_scale_of config_a w
                  = Inr (clamp_tick_scale config_a (to_int (w / fTickWidthRescale config_a)))" for w
    by blast
  from th have cl: "clamp_tick_scale config_a c =
                 (if c < 1 \<or> fMaxTickWidthScale config_a < 1 then 1
                  else if fMaxTickWidthScale config_a < c then fMaxTickWidthScale config_a else c)" for c
    by blast
  have t7: "tick_scale_of config_a 7 = Inr 3" "tick_scale_of config_a 2 = Inr 2"
    "tick_scale_of config_a 0 = Inr 1"
    unfolding t cl by (simp_all add: config_a_def to_int_def)
  have d: "clamp_tick_scale config_a 7 = 3" unfolding cl by (simp add: config_a_def)
  from th b c obtain allKernels where m: "make_kernels config_a 1 1 1 1 = Inr allKernels"
    by blast
  from th m have "\<exists>t k. find_kernel (fKernels config_a) allKernels (clamp_tick_scale config_a 7) = Inr k
            \<and> k \<noteq> []
            \<and> t \<in> set (fKernels config_a) \<and> 1 \<le> t \<and> t \<le> clamp_tick_scale config_a 7
            \<and> allKernels t = Some k
            \<and> (\<forall>u \<in> set (fKernels config_a). u \<le> clamp_tick_scale config_a 7 \<longrightarrow> u \<le> t)"
    by blast
  then obtain t k where
    fk: "find_kernel (fKernels config_a) allKernels (clamp_tick_scale config_a 7) = Inr k"
    and t: "t \<in> set (fKernels config_a)" and k: "allKernels t = Some k"
    by (elim conjE exE) (rule that, assumption+)
  from t have "t = 1" by (simp add: config_a_def)
  with fk k d have "find_kernel (fKernels config_a) allKernels 3 = Inr k \<and> allKernels 1 = Some k"
    by simp
  with a r b c t7 m show ?thesis by blast
qed

text \<open>
  The claim as stated has the tier clamped to [1, tierCeiling]. The lower bound is applied
  last: with a ceiling of 0 the clamped tier is 1, above the ceiling.
\<close>

theorem C6_clamp_above_low_ceiling:
  "reconfigure config_z = Inr config_z \<and> 1 \<in> set (fKernels config_z)
   \<and> fMaxTickWidthScale config_z = 0
   \<and> tick_scale_of config_z 3 = Inr 1
   \<and> \<not> (1 \<le> clamp_tick_scale config_z 3 \<and> clamp_tick_scale config_z 3 \<le> fMaxTickWidthScale config_z)"
  by (simp add: reconfigure_def config_z_def config_a_def tick_scale_of_def clamp_tick_scale_def
      to_int_def)

subsection \<open>C7: hits on the same cell\<close>

text \<open>
  C7, as amended. Let two input hits discretize to the same cell. Then
  \<open>ConvertRecobHitsToVector\<close> completes. If some input hit of the cell has a positive
  charge, the charge image holds at that cell the largest charge among all input hits of
  the cell (so at least the maximum of the two, and exactly that maximum when no third hit
  shares the cell), and the width image holds the width of, and the hit map resolves the
  cell to, the first input hit that has this charge: a later hit replaces the occupant only
  when its charge is strictly larger. If no input hit of the cell has a positive charge, no
  hit exceeds the initial 0: the cell keeps charge 0 and width 0 and has no entry in the
  hit map.
\<close>

theorem C7_charge_max_merge:
  assumes "a \<in> set hits" and "b \<in> set hits" and "hit_cell a = hit_cell b"
  shows "\<exists>st img widths.
           ConvertRecobHitsToVector det hits = Inr (st, img, widths)
         \<and> (if \<exists>h \<in> set hits. hit_cell h = hit_cell a \<and> 0 < Integral h
            then \<exists>i < length hits.
                   hit_cell (hits ! i) = hit_cell a \<and> 0 < Integral (hits ! i)
                 \<and> (\<forall>j < length hits. hit_cell (hits ! j) = hit_cell a \<longrightarrow>
                        Integral (hits ! j) \<le> Integral (hits ! i))
                 \<and> (\<forall>j < i. hit_cell (hits ! j) = hit_cell a \<longrightarrow>
                        Integral (hits ! j) < Integral (hits ! i))
                 \<and> max (Integral a) (Integral b) \<le> Integral (hits ! i)
                 \<and> ((\<forall>h' \<in> set hits. hit_cell h' = hit_cell a \<longrightarrow> h' = a \<or> h' = b) \<longrightarrow>
                       (hits ! i = a \<or> hits ! i = b)
                     \<and> Integral (hits ! i) = max (Integral a) (Integral b))
                 \<and> at2 img (GlobalWire a - fLowerHistWire st) (to_int (PeakTime a) - fLowerHistTick st)
                       = Inr (Integral (hits ! i))
                 \<and> at2 widths (GlobalWire a - fLowerHistWire st) (to_int (PeakTime a) - fLowerHistTick st)
                       = Inr (RMS (hits ! i))
                 \<and> map_of (fHitMap st) (hit_cell a) = Some (hits ! i)
            else at2 img (GlobalWire a - fLowerHistWire st) (to_int (PeakTime a) - fLowerHistTick st)
                   = Inr 0
               \<and> at2 widths (GlobalWire a - fLowerHistWire st) (to_int (PeakTime a) - fLowerHistTick st)
                   = Inr 0
               \<and> map_of (fHitMap st) (hit_cell a) = None)"
proof -
  have ne: "hits \<noteq> []" using assms(1) by auto
  from ImageBuilder_cells[OF ne, of det] assms(1) obtain st img wid v w where
    res: "ConvertRecobHitsToVector det hits = Inr (st, img, wid)"
    and av: "at2 img (GlobalWire a - fLowerHistWire st) (to_int (PeakTime a) - fLowerHistTick st) = Inr v"
    and aw: "at2 wid (GlobalWire a - fLowerHistWire st) (to_int (PeakTime a) - fLowerHistTick st) = Inr w"
    and ca: "cell_after (hit_cell a) hits (0, 0, None) = (v, w, map_of (fHitMap st) (hit_cell a))"
    by metis
  note fm = cell_after_first_max[OF ca]
  let ?X = "\<exists>h \<in> set hits. hit_cell h = hit_cell a \<and> 0 < Integral h"
  have "if ?X
            then \<exists>i < length hits.
                   hit_cell (hits ! i) = hit_cell a \<and> 0 < Integral (hits ! i)
                 \<and> (\<forall>j < length hits. hit_cell (hits ! j) = hit_cell a \<longrightarrow>
                        Integral (hits ! j) \<le> Integral (hits ! i))
                 \<and> (\<forall>j < i. hit_cell (hits ! j) = hit_cell a \<longrightarrow>
                        Integral (hits ! j) < Integral (hits ! i))
                 \<and> max (Integral a) (Integral b) \<le> Integral (hits ! i)
                 \<and> ((\<forall>h' \<in> set hits. hit_cell h' = hit_cell a \<longrightarrow> h' = a \<or> h' = b) \<longrightarrow>
                       (hits ! i = a \<or> hits ! i = b)
                     \<and> Integral (hits ! i) = max (Integral a) (Integral b))
                 \<and> at2 img (GlobalWire a - fLowerHistWire st) (to_int (PeakTime a) - fLowerHistTick st)
                       = Inr (Integral (hits ! i))
                 \<and> at2 wid (GlobalWire a - fLowerHistWire st) (to_int (PeakTime a) - fLowerHistTick st)
                       = Inr (RMS (hits ! i))
                 \<and> map_of (fHitMap st) (hit_cell a) = Some (hits ! i)
            else at2 img (GlobalWire a - fLowerHistWire st) (to_int (PeakTime a) - fLowerHistTick st)
                   = Inr 0
               \<and> at2 wid (GlobalWire a - fLowerHistWire st) (to_int (PeakTime a) - fLowerHistTick st)
                   = Inr 0
               \<and> map_of (fHitMap st) (hit_cell a) = None"
  proof (cases ?X)
    case True
    with fm obtain i where i: "i < length hits" "hit_cell (hits ! i) = hit_cell a" "0 < v"
      "v = Integral (hits ! i)" "w = RMS (hits ! i)" "map_of (fHitMap st) (hit_cell a) = Some (hits ! i)"
      "\<forall>j < length hits. hit_cell (hits ! j) = hit_cell a \<longrightarrow> Integral (hits ! j) \<le> v"
      "\<forall>j < i. hit_cell (hits ! j) = hit_cell a \<longrightarrow> Integral (hits ! j) < v"
      by auto
    have bound: "Integral h \<le> v" if "h \<in> set hits" "hit_cell h = hit_cell a" for h
      using that i(7) by (auto simp: in_set_conv_nth)
    from bound[OF assms(1)] bound[OF assms(2)] assms(3)
    have mx: "max (Integral a) (Integral b) \<le> v" by simp
    have mem: "hits ! i \<in> set hits" using i(1) by simp
    have pair: "(\<forall>h' \<in> set hits. hit_cell h' = hit_cell a \<longrightarrow> h' = a \<or> h' = b) \<longrightarrow>
                       (hits ! i = a \<or> hits ! i = b)
                     \<and> Integral (hits ! i) = max (Integral a) (Integral b)"
    proof
      assume only: "\<forall>h' \<in> set hits. hit_cell h' = hit_cell a \<longrightarrow> h' = a \<or> h' = b"
      with mem i(2) have ab: "hits ! i = a \<or> hits ! i = b" by blast
      then have "Integral (hits ! i) \<le> max (Integral a) (Integral b)" by auto
      moreover have "max (Integral a) (Integral b) \<le> Integral (hits ! i)" using mx i(4) by simp
      ultimately have "Integral (hits ! i) = max (Integral a) (Integral b)" by (rule order_antisym)
      with ab show "(hits ! i = a \<or> hits ! i = b)
                     \<and> Integral (hits ! i) = max (Integral a) (Integral b)" by (rule conjI)
    qed
    have "hit_cell (hits ! i) = hit_cell a \<and> 0 < Integral (hits ! i)
                 \<and> (\<forall>j < length hits. hit_cell (hits ! j) = hit_cell a \<longrightarrow>
                        Integral (hits ! j) \<le> Integral (hits ! i))
                 \<and> (\<forall>j < i. hit_cell (hits ! j) = hit_cell a \<longrightarrow>
                        Integral (hits ! j) < Integral (hits ! i))
                 \<and> max (Integral a) (Integral b) \<le> Integral (hits ! i)
                 \<and> ((\<forall>h' \<in> set hits. hit_cell h' = hit_cell a \<longrightarrow> h' = a \<or> h' = b) \<longrightarrow>
                       (hits ! i = a \<or> hits ! i = b)
                     \<and> Integral (hits ! i) = max (Integral a) (Integral b))
                 \<and> at2 img (GlobalWire a - fLowerHistWire st) (to_int (PeakTime a) - fLowerHistTick st)
                       = Inr (Integral (hits ! i))
                 \<and> at2 wid (GlobalWire a - fLowerHistWire st) (to_int (PeakTime a) - fLowerHistTick st)
                       = Inr (RMS (hits ! i))
                 \<and> map_of (fHitMap st) (hit_cell a) = Some (hits ! i)"
      using i(2-8) mx pair av aw by (intro conjI) simp_all
    with i(1) True show ?thesis by (simp only: if_True) blast
  next
    case False
    with fm have "(v, w, map_of (fHitMap st) (hit_cell a)) = (0, 0, None)" by (simp only: if_False)
    with av aw False show ?thesis by (simp only: if_False) simp
  qed
  with res show ?thesis by blast
qed

text \<open>Two instances on cell (10, 100): charges 30 then 50 leave the second hit, with charge 50
  and width 2; two hits of charge 50 leave the first.\<close>

theorem C7_charge_max_merge_witness:
  "hit_a \<in> set [hit_d, hit_a] \<and> hit_d \<in> set [hit_d, hit_a] \<and> hit_cell hit_a = hit_cell hit_d
   \<and> 0 < Integral hit_a
   \<and> (\<exists>st img widths.
         ConvertRecobHitsToVector detector_a [hit_d, hit_a] = Inr (st, img, widths)
       \<and> at2 img (GlobalWire hit_a - fLowerHistWire st) (to_int (PeakTime hit_a) - fLowerHistTick st)
             = Inr 50
       \<and> at2 widths (GlobalWire hit_a - fLowerHistWire st) (to_int (PeakTime hit_a) - fLowerHistTick st)
             = Inr 2
       \<and> map_of (fHitMap st) (hit_cell hit_a) = Some hit_a)
   \<and> hit_a \<in> set [hit_a, hit_t] \<and> hit_t \<in> set [hit_a, hit_t] \<and> hit_cell hit_a = hit_cell hit_t
   \<and> Integral hit_t = Integral hit_a \<and> hit_t \<noteq> hit_a
   \<and> (\<exists>st img widths.
         ConvertRecobHitsToVector detector_a [hit_a, hit_t] = Inr (st, img, widths)
       \<and> at2 img (GlobalWire hit_a - fLowerHistWire st) (to_int (PeakTime hit_a) - fLowerHistTick st)
             = Inr 50
       \<and> at2 widths (GlobalWire hit_a - fLowerHistWire st) (to_int (PeakTime hit_a) - fLowerHistTick st)
             = Inr 2
       \<and> map_of (fHitMap st) (hit_cell hit_a) = Some hit_a)"
proof -
  have m1: "hit_a \<in> set [hit_d, hit_a]" and m2: "hit_d \<in> set [hit_d, hit_a]" by simp_all
  have c: "hit_cell hit_a = hit_cell hit_d" by (simp add: hit_cell_def hit_a_def hit_d_def to_int_def)
  have p: "0 < Integral hit_a" by (simp add: hit_a_def)
  have x1: "\<exists>h \<in> set [hit_d, hit_a]. hit_cell h = hit_cell hit_a \<and> 0 < Integral h"
    using p by simp
  from C7_charge_max_merge[OF m1 m2 c, of detector_a] x1 obtain st img widths i where
    res: "ConvertRecobHitsToVector detector_a [hit_d, hit_a] = Inr (st, img, widths)"
    and i: "i < length [hit_d, hit_a]"
      "\<forall>j < length [hit_d, hit_a]. hit_cell ([hit_d, hit_a] ! j) = hit_cell hit_a \<longrightarrow>
          Integral ([hit_d, hit_a] ! j) \<le> Integral ([hit_d, hit_a] ! i)"
    and cells: "at2 img (GlobalWire hit_a - fLowerHistWire st) (to_int (PeakTime hit_a) - fLowerHistTick st)
               = Inr (Integral ([hit_d, hit_a] ! i))"
      "at2 widths (GlobalWire hit_a - fLowerHistWire st) (to_int (PeakTime hit_a) - fLowerHistTick st)
               = Inr (RMS ([hit_d, hit_a] ! i))"
      "map_of (fHitMap st) (hit_cell hit_a) = Some ([hit_d, hit_a] ! i)"
    by (simp only: if_True) (elim exE conjE, rule that, assumption+)
  have "i = 1"
  proof (rule ccontr)
    assume "i \<noteq> 1"
    with i(1) have "i = 0" by simp
    with i(2)[rule_format, of 1] show False by (simp add: hit_a_def hit_d_def)
  qed
  with cells have first: "at2 img (GlobalWire hit_a - fLowerHistWire st) (to_int (PeakTime hit_a) - fLowerHistTick st)
             = Inr 50
       \<and> at2 widths (GlobalWire hit_a - fLowerHistWire st) (to_int (PeakTime hit_a) - fLowerHistTick st)
             = Inr 2
       \<and> map_of (fHitMap st) (hit_cell hit_a) = Some hit_a"
    by (simp add: hit_a_def)
  have n1: "hit_a \<in> set [hit_a, hit_t]" and n2: "hit_t \<in> set [hit_a, hit_t]" by simp_all
  have c': "hit_cell hit_a = hit_cell hit_t" by (simp add: hit_cell_def hit_a_def hit_t_def to_int_def)
  have tie: "Integral hit_t = Integral hit_a" "hit_t \<noteq> hit_a" by (simp_all add: hit_a_def hit_t_def)
  have x2: "\<exists>h \<in> set [hit_a, hit_t]. hit_cell h = hit_cell hit_a \<and> 0 < Integral h"
    using p by simp
  from C7_charge_max_merge[OF n1 n2 c', of detector_a] x2 obtain st' img' widths' k where
    res': "ConvertRecobHitsToVector detector_a [hit_a, hit_t] = Inr (st', img', widths')"
    and k: "k < length [hit_a, hit_t]"
      "\<forall>j < k. hit_cell ([hit_a, hit_t] ! j) = hit_cell hit_a \<longrightarrow>
          Integral ([hit_a, hit_t] ! j) < Integral ([hit_a, hit_t] ! k)"
    and cells': "at2 img' (GlobalWire hit_a - fLowerHistWire st') (to_int (PeakTime hit_a) - fLowerHistTick st')
               = Inr (Integral ([hit_a, hit_t] ! k))"
      "at2 widths' (GlobalWire hit_a - fLowerHistWire st') (to_int (PeakTime hit_a) - fLowerHistTick st')
               = Inr (RMS ([hit_a, hit_t] ! k))"
      "map_of (fHitMap st') (hit_cell hit_a) = Some ([hit_a, hit_t] ! k)"
    by (simp only: if_True) (elim exE conjE, rule that, assumption+)
  have "k = 0"
  proof (rule ccontr)
    assume "k \<noteq> 0"
    with k(1) have "k = 1" by simp
    with k(2)[rule_format, of 0] tie(1) show False by simp
  qed
  with cells' have second: "at2 img' (GlobalWire hit_a - fLowerHistWire st') (to_int (PeakTime hit_a) - fLowerHistTick st')
             = Inr 50
       \<and> at2 widths' (GlobalWire hit_a - fLowerHistWire st') (to_int (PeakTime hit_a) - fLowerHistTick st')
             = Inr 2
       \<and> map_of (fHitMap st') (hit_cell hit_a) = Some hit_a"
    by (simp add: hit_a_def)
  from m1 m2 c p res first n1 n2 c' tie res' second show ?thesis by blast
qed

text \<open>
  The claim as stated covers every pair of hits. A hit only replaces the stored value when
  its charge exceeds it, and the cells start at 0: two hits with charges -1 and -2 on cell
  (10, 100) leave the charge at 0, not at the maximum -1, and the hit map without an entry.
\<close>

theorem C7_non_positive_charges_leave_cell_empty:
  "case ConvertRecobHitsToVector detector_a [hit_e, hit_f] of
     Inl e \<Rightarrow> False
   | Inr (st, img, widths) \<Rightarrow>
       hit_cell hit_e = (10, 100) \<and> hit_cell hit_f = (10, 100)
       \<and> max (Integral hit_e) (Integral hit_f) = - 1
       \<and> at2 img (10 - fLowerHistWire st) (100 - fLowerHistTick st) = Inr 0
       \<and> at2 widths (10 - fLowerHistWire st) (100 - fLowerHistTick st) = Inr 0
       \<and> map_of (fHitMap st) (10, 100) = None"
  by (simp add: ConvertRecobHitsToVector_def detector_a_def hit_e_def hit_f_def hit_cell_def
      to_int_def new_image_def at2_def put2_def vec_at_def)

subsection \<open>C8: the index into the selected kernel\<close>

text \<open>
  C8. The claim: with blur radii at least 1, tier ceiling at least 1 and 1 in the tier
  set, every index \<open>kernel_width * (kernel_height / 2 + blury) + (kernel_width / 2 + blurx)\<close>
  lies inside the selected kernel. The loop over \<open>blury\<close> runs up to
  \<open>(height + 1) / 2 * tick_scale - 1 = (blurtick + 1) * tick_scale - 1\<close>, while the kernel
  has \<open>blurtick * (fMaxTickWidthScale + 1)\<close> rows above its centre. With two hits on
  neighbouring wires at the same tick (blur radii and sigmas 1), tier ceiling 3, tier set
  [1] and a hit width of three rescale units, the tick scale is 3, \<open>blury\<close> reaches 5,
  the index reaches 27 and the kernel has 27 weights: \<open>at\<close> throws, at the first cell with
  a charge of the image built from the two hits.
\<close>

theorem C8_weight_index_out_of_range:
  "ConvertRecobHitsToVector detector_a [hit_b, hit_c] = Inr (state_bc, image_bc, widths_bc)
   \<and> raw_at2 image_bc 20 20 = Inr 50 \<and> raw_at2 widths_bc 20 20 = Inr 3
   \<and> FindBlurringParameters config_a state_bc = Inr (1, 1, 1, 1)
   \<and> tick_scale_of config_a 3 = Inr 3
   \<and> (- 1, 5) \<in> set (blur_offsets 3 3 3)
   \<and> weight_index 3 9 (- 1, 5) = 27
   \<and> (\<exists>allKernels k. make_kernels config_a 1 1 1 1 = Inr allKernels
         \<and> find_kernel (fKernels config_a) allKernels 3 = Inr k \<and> length k = 27
         \<and> Convolve config_a image_bc widths_bc allKernels 3 9 3 3 = Inl OutOfRange)
   \<and> GaussianBlur config_a state_bc image_bc widths_bc = Inl OutOfRange"
proof -
  have ts: "tick_scale_of config_a 3 = Inr 3"
    by (simp add: tick_scale_of_def clamp_tick_scale_def config_a_def to_int_def)
  have offs: "(- 1, 5) \<in> set (blur_offsets 3 3 3)"
    by (simp add: blur_offsets_333)
  have wi: "weight_index 3 9 (- 1, 5) = 27" by (simp add: weight_index_def c_div_def)
  have cells: "raw_at2 image_bc 20 20 = Inr 50" "raw_at2 widths_bc 20 20 = Inr 3"
    using cell_bc[of 20 20] by simp_all
  have t: "1 \<in> set (fKernels config_a)" by (simp add: config_a_def)
  have h: "0 \<le> (1::int) * (fMaxTickWidthScale config_a + 1)" by (simp add: config_a_def)
  from kernels_content[where blurwire = 1 and blurtick = 1 and sigmawire = 1 and sigmatick = 1,
      OF _ h t]
  obtain allKernels k where
    m: "make_kernels config_a 1 1 1 1 = Inr allKernels" "allKernels 1 = Some k"
    and len: "int (length k) = (2 * 1 + 1) * (2 * 1 * (fMaxTickWidthScale config_a + 1) + 1)"
    by auto
  have l: "length k = 27" using len by (simp add: config_a_def)
  then have ne: "k \<noteq> []" by auto
  have f3: "find_kernel (fKernels config_a) allKernels 3 = Inr k"
    using m(2) ne
    by (simp add: find_kernel.simps[of _ _ 3] find_kernel.simps[of _ _ 2]
        find_kernel.simps[of _ _ 1] config_a_def)
  have conv: "Convolve config_a image_bc widths_bc allKernels 3 9 3 3 = Inl OutOfRange"
    using f3 l by (rule convolve_bc)
  have "GaussianBlur config_a state_bc image_bc widths_bc = Inl OutOfRange"
    unfolding GaussianBlur_def blur_parameters_bc using m(1) conv
    by (simp add: config_a_def)
  with build_bc cells blur_parameters_bc ts offs wi m(1) f3 l conv show ?thesis by blast
qed

subsection \<open>C9: the accepted clusters and the mask\<close>

text \<open>
  C9. When a run of \<open>FindClusters\<close> ends, the clusters it has appended are pairwise
  disjoint, none repeats a cell, and the mask \<open>used\<close> is true exactly on the cells of
  those clusters: the cells of every discarded cluster and every pruned cell are unmarked
  again, the cells of every accepted cluster stay marked. (The run ends whenever no read
  fails; every loop of the model terminates.)
\<close>

theorem C9_clusters_disjoint_mask_exact:
  assumes "FindClusters_run cfg st blurred pre = Inr (allcluster, used1)"
  shows "\<exists>new. allcluster = pre @ new
         \<and> FindClusters cfg st blurred pre = Inr (pre @ new, int (length (pre @ new)))
         \<and> (\<forall>i j. i < j \<and> j < length new \<longrightarrow> set (new ! i) \<inter> set (new ! j) = {})
         \<and> (\<forall>c \<in> set new. distinct c)
         \<and> (\<forall>b. (0 \<le> b \<and> b < int (length used1) \<and> used1 ! nat b) \<longleftrightarrow> (\<exists>c \<in> set new. b \<in> set c))"
proof -
  from FindClusters_run_inv[OF assms] obtain new where
    new: "allcluster = pre @ new" and m: "marked used1 = \<Union> (set ` set new)"
    and d: "disjoint_clusters new" by blast
  have f: "FindClusters cfg st blurred pre = Inr (pre @ new, int (length (pre @ new)))"
    using assms new by (simp add: FindClusters_def)
  have "\<forall>b. (0 \<le> b \<and> b < int (length used1) \<and> used1 ! nat b) \<longleftrightarrow> (\<exists>c \<in> set new. b \<in> set c)"
  proof
    fix b
    have "(0 \<le> b \<and> b < int (length used1) \<and> used1 ! nat b) \<longleftrightarrow> b \<in> marked used1"
      by (simp add: marked_def)
    also have "\<dots> \<longleftrightarrow> (\<exists>c \<in> set new. b \<in> set c)" unfolding m by auto
    finally show "(0 \<le> b \<and> b < int (length used1) \<and> used1 ! nat b) \<longleftrightarrow> (\<exists>c \<in> set new. b \<in> set c)" .
  qed
  with new f d show ?thesis unfolding disjoint_clusters_def by blast
qed

text \<open>
  An instance, with minimum size 2: the seed of charge 9 (bin 13) grows no further, is
  discarded and unmarked; the seeds of charge 6 and 5 give the clusters [19, 22] and
  [4, 7].
\<close>

theorem C9_clusters_disjoint_mask_exact_witness:
  "FindClusters_run config_c state_0 blurred_a []
     = Inr ([[19, 22], [4, 7]],
            [False, False, False, False, True, False, False, True, False, False,
             False, False, False, False, False, False, False, False, False, True,
             False, False, True, False, False, False, False])
   \<and> FindClusters config_c state_0 blurred_a [] = Inr ([[19, 22], [4, 7]], 2)
   \<and> set [19, 22] \<inter> set [4, 7] = ({} :: int set)
   \<and> (\<exists>new. [[19, 22], [4, 7]] = [] @ new
         \<and> (\<forall>b. (0 \<le> b \<and> b < 27
                  \<and> [False, False, False, False, True, False, False, True, False, False,
                      False, False, False, False, False, False, False, False, False, True,
                      False, False, True, False, False, False, False] ! nat b)
                \<longleftrightarrow> (\<exists>c \<in> set new. b \<in> set c)))"
proof -
  from C9_clusters_disjoint_mask_exact[OF run_blurred_a] obtain new where
    n: "[[19, 22], [4, 7]] = [] @ new"
    and f: "FindClusters config_c state_0 blurred_a [] = Inr ([] @ new, int (length ([] @ new)))"
    and d: "\<forall>i j. i < j \<and> j < length new \<longrightarrow> set (new ! i) \<inter> set (new ! j) = {}"
    and m: "\<forall>b. (0 \<le> b \<and> b < int (length
                     [False, False, False, False, True, False, False, True, False, False,
                      False, False, False, False, False, False, False, False, False, True,
                      False, False, True, False, False, False, False])
                  \<and> [False, False, False, False, True, False, False, True, False, False,
                      False, False, False, False, False, False, False, False, False, True,
                      False, False, True, False, False, False, False] ! nat b)
                \<longleftrightarrow> (\<exists>c \<in> set new. b \<in> set c)"
    by (elim exE conjE) (rule that, assumption+)
  from n have new: "new = [[19, 22], [4, 7]]" by simp
  from f new have f': "FindClusters config_c state_0 blurred_a [] = Inr ([[19, 22], [4, 7]], 2)"
    by simp
  from d[rule_format, of 0 1] new have d': "set [19, 22] \<inter> set [4, 7] = ({} :: int set)" by simp
  from m have m': "\<forall>b. (0 \<le> b \<and> b < 27
                  \<and> [False, False, False, False, True, False, False, True, False, False,
                      False, False, False, False, False, False, False, False, False, True,
                      False, False, True, False, False, False, False] ! nat b)
                \<longleftrightarrow> (\<exists>c \<in> set new. b \<in> set c)"
    by simp
  from run_blurred_a f' d' n m' show ?thesis by blast
qed

subsection \<open>C10: hits with a non-positive time\<close>

text \<open>
  C10, as amended. \<open>GetTimeOfBin\<close> is -10000 for a bin without a hit and the peak time of
  the hit otherwise. Only strictly positive times are recorded: the seed records its time
  only when positive, and growing and hole filling keep every recorded time positive. In
  seeding and growing a non-positive time acts like the default: the seed state and the
  decision on a candidate are the same as for -10000, the time cut cannot fail, and two hit
  maps whose bin times differ only where both are non-positive take the growing loop to
  the same result. (Hole filling is not part of this: see the counterexample.)
\<close>

theorem C10_non_positive_time_in_seeding_and_growing:
  assumes "\<And>b. GetTimeOfBin st blurred b = GetTimeOfBin st' blurred b
             \<or> (\<exists>t1 t2. GetTimeOfBin st blurred b = Inr t1
                  \<and> GetTimeOfBin st' blurred b = Inr t2 \<and> t1 \<le> 0 \<and> t2 \<le> 0)"
    and "\<forall>t \<in> set (times_v s). 0 < t"
    and "time \<le> 0"
  shows "(ConvertBinToRecobHit st blurred bin = Inr None \<longrightarrow> GetTimeOfBin st blurred bin = Inr (- 10000))
       \<and> (\<forall>hit. ConvertBinToRecobHit st blurred bin = Inr (Some hit) \<longrightarrow>
             GetTimeOfBin st blurred bin = Inr (PeakTime hit))
       \<and> (\<forall>t'. times_v (seed_state u bin t') = (if 0 < t' then [t'] else []))
       \<and> seed_state u bin time = seed_state u bin (- 10000)
       \<and> \<not> growing_time_cut_fails cfg (times_v s) time
       \<and> grow_decide cfg v time bin s = grow_decide cfg v (- 10000) bin s
       \<and> grow_loop cfg st blurred nbinsx nbinsy s = grow_loop cfg st' blurred nbinsx nbinsy s
       \<and> (\<forall>s'. grow_loop cfg st blurred nbinsx nbinsy s = Inr s' \<longrightarrow> (\<forall>t \<in> set (times_v s'). 0 < t))
       \<and> (\<forall>s'. hole_pass cfg st blurred nbinsx nbinsy k s = Inr s' \<longrightarrow> (\<forall>t \<in> set (times_v s'). 0 < t))"
proof -
  have a: "ConvertBinToRecobHit st blurred bin = Inr None \<longrightarrow> GetTimeOfBin st blurred bin = Inr (- 10000)"
    by (simp add: GetTimeOfBin_def)
  have b: "\<forall>hit. ConvertBinToRecobHit st blurred bin = Inr (Some hit) \<longrightarrow>
             GetTimeOfBin st blurred bin = Inr (PeakTime hit)"
    by (simp add: GetTimeOfBin_def)
  have c: "\<forall>t'. times_v (seed_state u bin t') = (if 0 < t' then [t'] else [])"
    by (simp add: seed_state_def)
  have d: "seed_state u bin time = seed_state u bin (- 10000)"
    using assms(3) by (simp add: seed_state_def)
  have e: "\<not> growing_time_cut_fails cfg (times_v s) time"
    using assms(3) by (simp add: growing_time_cut_fails_def)
  have f: "grow_decide cfg v time bin s = grow_decide cfg v (- 10000) bin s"
    using grow_decide_non_positive[OF assms(3), of "- 10000"] by simp
  have g: "grow_loop cfg st blurred nbinsx nbinsy s = grow_loop cfg st' blurred nbinsx nbinsy s"
    using grow_loop_alike[where ?st1.0 = st and ?st2.0 = st' and blurred = blurred, OF assms(1)] .
  have h: "\<forall>s'. grow_loop cfg st blurred nbinsx nbinsy s = Inr s' \<longrightarrow> (\<forall>t \<in> set (times_v s'). 0 < t)"
    using grow_loop_times assms(2) by blast
  have i: "\<forall>s'. hole_pass cfg st blurred nbinsx nbinsy k s = Inr s' \<longrightarrow> (\<forall>t \<in> set (times_v s'). 0 < t)"
    using hole_pass_times assms(2) by blast
  from a b c d e f g h i show ?thesis by (intro conjI)
qed

text \<open>An instance: a hit of time -1/2 against no hit at all, next to a recorded time 1/4.\<close>

theorem C10_non_positive_time_in_seeding_and_growing_witness:
  "times_v growth_c = [1 / 4] \<and> (- 1 / 2 :: real) \<le> 0
   \<and> GetTimeOfBin state_g blurred_c 4 = Inr (- 1 / 2)
   \<and> GetTimeOfBin state_0 blurred_c 4 = Inr (- 10000)
   \<and> seed_state (used growth_c) 4 (- 1 / 2) = seed_state (used growth_c) 4 (- 10000)
   \<and> grow_decide config_a 2 (- 1 / 2) 4 growth_c = grow_decide config_a 2 (- 10000) 4 growth_c
   \<and> cluster (grow_decide config_a 2 (- 1 / 2) 4 growth_c) = cluster growth_c @ [4]
   \<and> grow_loop config_a state_g blurred_c 3 3 growth_c = grow_loop config_a state_0 blurred_c 3 3 growth_c"
proof -
  have p: "\<forall>t \<in> set (times_v growth_c). 0 < t" by (simp add: growth_c_def)
  have n: "(- 1 / 2 :: real) \<le> 0" by simp
  note th = C10_non_positive_time_in_seeding_and_growing[where st = state_g and st' = state_0
      and blurred = blurred_c and s = growth_c and time = "- 1 / 2" and bin = 4
      and u = "used growth_c" and cfg = config_a and v = 2 and nbinsx = 3 and nbinsy = 3,
      OF times_state_g p n]
  have t1: "times_v growth_c = [1 / 4]" by (simp add: growth_c_def)
  have g1: "GetTimeOfBin state_g blurred_c 4 = Inr (- 1 / 2)" by code_simp
  have g2: "GetTimeOfBin state_0 blurred_c 4 = Inr (- 10000)" by code_simp
  have c: "cluster (grow_decide config_a 2 (- 1 / 2) 4 growth_c) = cluster growth_c @ [4]"
    by code_simp
  from th t1 n g1 g2 c show ?thesis by blast
qed

text \<open>
  The claim as stated extends this to the whole of clustering. Hole filling passes the
  time itself to \<open>PassesTimeCut\<close>: with the recorded time 1/4 and a window of 1, the cell
  whose hit has time -1/2 is admitted, the same cell without a hit (time -10000) is not.
\<close>

theorem C10_hole_filling_uses_the_time:
  "GetTimeOfBin state_g blurred_c 4 = Inr (- 1 / 2) \<and> (- 1 / 2 :: real) \<le> 0
   \<and> GetTimeOfBin state_0 blurred_c 4 = Inr (- 10000)
   \<and> times_v growth_c = [1 / 4] \<and> fTimeThreshold config_a = 1
   \<and> PassesTimeCut config_a (times_v growth_c) (- 1 / 2)
   \<and> \<not> PassesTimeCut config_a (times_v growth_c) (- 10000)
   \<and> hole_candidate config_a state_g blurred_c 3 3 0 (1, 1) growth_c
        = Inr (growth_c\<lparr>used := [True, True, True, True, True, True, True, True, True],
                        cluster := [0, 1, 2, 3, 5, 6, 7, 8, 4]\<rparr>)
   \<and> hole_candidate config_a state_0 blurred_c 3 3 0 (1, 1) growth_c = Inr growth_c"
  by code_simp

end
